theory Spec2Isabelle
  imports Main "HOL-Library.Multiset"
begin

section \<open>Python values used by \<open>ipv4_to_ipv6_lookup.py\<close>\<close>

text \<open>
  A Python \<open>str\<close> is a \<^typ>\<open>string\<close>; a character stands for the code point of the same
  number, so the model covers the code points below 256.

  The exception classes the script can meet. \<open>herror\<close> and \<open>gaierror\<close> are the classes of
  the \<open>socket\<close> module; both, like \<open>FileNotFoundError\<close> and \<open>PermissionError\<close>, are
  subclasses of \<open>OSError\<close>. \<open>UnicodeError\<close> (a \<open>ValueError\<close>), \<open>TypeError\<close> and
  \<open>ZeroDivisionError\<close> are not. All of them are subclasses of \<open>Exception\<close>.
\<close>

datatype py_exn =
    OSError
  | FileNotFoundError
  | PermissionError
  | herror
  | gaierror
  | UnicodeError
  | ValueError
  | TypeError
  | ZeroDivisionError

fun isinstance_OSError :: "py_exn \<Rightarrow> bool" where
  "isinstance_OSError OSError = True"
| "isinstance_OSError FileNotFoundError = True"
| "isinstance_OSError PermissionError = True"
| "isinstance_OSError herror = True"
| "isinstance_OSError gaierror = True"
| "isinstance_OSError UnicodeError = False"
| "isinstance_OSError ValueError = False"
| "isinstance_OSError TypeError = False"
| "isinstance_OSError ZeroDivisionError = False"

text \<open>
  \<open>str.isspace\<close> on one character: the code points below 256 that Python counts as
  whitespace are 9 to 13, 28 to 32, 133 and 160.
\<close>

definition isspace :: "char \<Rightarrow> bool" where
  "isspace c =
     (let n = (of_char c :: nat)
      in (9 \<le> n \<and> n \<le> 13) \<or> (28 \<le> n \<and> n \<le> 32) \<or> n = 133 \<or> n = 160)"

text \<open>\<open>str.strip()\<close> with no argument removes leading and trailing whitespace.\<close>

definition strip :: "string \<Rightarrow> string" where
  "strip s = rev (dropWhile isspace (rev (dropWhile isspace s)))"

definition startswith :: "string \<Rightarrow> string \<Rightarrow> bool" where
  "startswith s pre = (take (length pre) s = pre)"


section \<open>The resolver: \<open>resolve_ipv4_to_ipv6\<close>\<close>

text \<open>
  The two calls into the \<open>socket\<close> module are the environment of the function. Each
  either returns or raises (a lookup that never answers is outside the model):
  \<^item> \<open>socket.gethostbyaddr(a)\<close> returns the triple (hostname, aliases, addresses);
  \<^item> \<open>socket.getaddrinfo(h, None, socket.AF_INET6)\<close> returns a list of
    5-tuples (family, type, proto, canonname, sockaddr), where an IPv6 sockaddr is
    (address, port, flowinfo, scope id).
\<close>

type_synonym sockaddr = "string \<times> nat \<times> nat \<times> nat"
type_synonym addrinfo = "int \<times> int \<times> int \<times> string \<times> sockaddr"

record resolver =
  gethostbyaddr :: "string \<Rightarrow> py_exn + (string \<times> string list \<times> string list)"
  getaddrinfo :: "string \<Rightarrow> py_exn + addrinfo list"

text \<open>\<open>info[4][0]\<close>: the address of the sockaddr of one result.\<close>

fun info_4_0 :: "addrinfo \<Rightarrow> string" where
  "info_4_0 (family, socktype, proto, canonname, (address, rest)) = address"

text \<open>
  Lines 32 to 36: the loop that collects the addresses, appending one only when it is
  not in the list yet.
\<close>

fun extract_loop :: "addrinfo list \<Rightarrow> string list \<Rightarrow> string list" where
  "extract_loop [] ipv6_addresses = ipv6_addresses"
| "extract_loop (info # addr_info) ipv6_addresses =
     (let ipv6_addr = info_4_0 info
      in if ipv6_addr \<notin> set ipv6_addresses
         then extract_loop addr_info (ipv6_addresses @ [ipv6_addr])
         else extract_loop addr_info ipv6_addresses)"

text \<open>
  Lines 25 to 40, the body of the \<open>try\<close>: \<open>Inl e\<close> when a call raises \<open>e\<close>,
  \<open>Inr (Some a)\<close> when line 40 returns \<open>a\<close>, \<open>Inr None\<close> when the body falls through.
\<close>

definition try_body :: "resolver \<Rightarrow> string \<Rightarrow> py_exn + string option" where
  "try_body env ipv4_address =
     (case gethostbyaddr env ipv4_address of
        Inl e \<Rightarrow> Inl e
      | Inr (hostname, aliases, addrs) \<Rightarrow>
          (case getaddrinfo env hostname of
             Inl e \<Rightarrow> Inl e
           | Inr addr_info \<Rightarrow>
               (case extract_loop addr_info [] of
                  [] \<Rightarrow> Inr None
                | first # others \<Rightarrow> Inr (Some first))))"

text \<open>
  Line 42: \<open>except (socket.herror, socket.gaierror, OSError)\<close>. The three classes are
  \<open>OSError\<close> and two of its subclasses, so the clause takes exactly the instances of
  \<open>OSError\<close>; any other exception leaves the function.
\<close>

definition resolve_ipv4_to_ipv6 :: "resolver \<Rightarrow> string \<Rightarrow> py_exn + string option" where
  "resolve_ipv4_to_ipv6 env ipv4_address =
     (case try_body env ipv4_address of
        Inl e \<Rightarrow> (if isinstance_OSError e then Inr None else Inl e)
      | Inr r \<Rightarrow> Inr r)"


section \<open>The input loader (lines 61 to 66)\<close>

text \<open>
  The file object is the list of the lines its iteration yields. The loop strips each
  line and keeps it when it is non-empty and does not start with \<open>#\<close>.
\<close>

fun read_loop :: "string list \<Rightarrow> string list \<Rightarrow> string list" where
  "read_loop [] ipv4_addr = ipv4_addr"
| "read_loop (line # f) ipv4_addr =
     (let line' = strip line
      in if line' \<noteq> [] \<and> \<not> startswith line' ''#''
         then read_loop f (ipv4_addr @ [line'])
         else read_loop f ipv4_addr)"


section \<open>The worker pool (lines 81 to 116)\<close>

text \<open>
  What the script prints. A line with numbers in it is kept as its operands:
  \<^item> \<open>Print_processing n\<close> is line 78, \<open>"Processing " + str(n) + "IPv4 addresses..."\<close>;
  \<^item> \<open>Print_progress p n f\<close> is line 101, the text
    \<open>"Processed: " + str(p / n) + " - Found: " + str(f) + " IPv6 addresses"\<close>;
  \<^item> \<open>Print_completed\<close>, \<open>Print_total p\<close>, \<open>Print_found f\<close>, \<open>Print_rate f p\<close> (the text
    of \<open>f / p * 100\<close>) and \<open>Print_saved path\<close> are lines 130 to 134. The elapsed time of
    line 130 is not modelled.
\<close>

datatype event =
    Print string
  | Print_processing nat
  | Print_progress nat nat nat
  | Print_completed
  | Print_total nat
  | Print_found nat
  | Print_rate nat nat
  | Print_saved string

text \<open>
  One task is one call of \<open>process_single_ip\<close>. Its program counter names the line it is
  about to execute and holds its local values. An augmented assignment on a \<open>nonlocal\<close>
  name is a load followed by a store, so lines 92 and 94 are two steps each; so are the
  reads of the two counters in lines 99 and 100.
\<close>

datatype pc =
    L89
  | L91 "string option"
  | L92_load "string option"
  | L92_store "string option" nat
  | L93 "string option"
  | L94_load string
  | L94_store string nat
  | L95 string
  | L98
  | L99
  | L100 nat
  | L101 nat nat
  | L_release
  | Returned
  | Raised py_exn

text \<open>
  The state the tasks share: the lock (free, or held by the task of that index), the
  two counters and the result list of lines 82 to 84, the tasks, and the console.
\<close>

record pool =
  lock :: "nat option"
  proc_cnt :: nat
  found_cnt :: nat
  ipv6_results :: "string list"
  tasks :: "pc list"
  printed :: "event list"

definition goto :: "nat \<Rightarrow> pc \<Rightarrow> pool \<Rightarrow> pool" where
  "goto i l s = s\<lparr>tasks := (tasks s)[i := l]\<rparr>"

text \<open>
  One step of task \<open>i\<close> at program counter \<open>l\<close>. \<open>with lock:\<close> (line 91) is taken only
  when the lock is free, and the task waits otherwise; leaving the block, normally or
  by an exception, frees the lock. \<open>if ipv6:\<close> (line 93) is false for \<open>None\<close> and for the
  empty string.
\<close>

fun task_step :: "resolver \<Rightarrow> string list \<Rightarrow> nat \<Rightarrow> pc \<Rightarrow> pool \<Rightarrow> pool" where
  "task_step env ipv4_addr i L89 s =
     (case resolve_ipv4_to_ipv6 env (ipv4_addr ! i) of
        Inl e \<Rightarrow> goto i (Raised e) s
      | Inr ipv6 \<Rightarrow> goto i (L91 ipv6) s)"
| "task_step env ipv4_addr i (L91 ipv6) s =
     (if lock s = None then goto i (L92_load ipv6) (s\<lparr>lock := Some i\<rparr>) else s)"
| "task_step env ipv4_addr i (L92_load ipv6) s = goto i (L92_store ipv6 (proc_cnt s)) s"
| "task_step env ipv4_addr i (L92_store ipv6 t) s = goto i (L93 ipv6) (s\<lparr>proc_cnt := t + 1\<rparr>)"
| "task_step env ipv4_addr i (L93 ipv6) s =
     (case ipv6 of
        None \<Rightarrow> goto i L98 s
      | Some a \<Rightarrow> if a \<noteq> [] then goto i (L94_load a) s else goto i L98 s)"
| "task_step env ipv4_addr i (L94_load a) s = goto i (L94_store a (found_cnt s)) s"
| "task_step env ipv4_addr i (L94_store a t) s = goto i (L95 a) (s\<lparr>found_cnt := t + 1\<rparr>)"
| "task_step env ipv4_addr i (L95 a) s =
     goto i L98 (s\<lparr>ipv6_results := ipv6_results s @ [a]\<rparr>)"
| "task_step env ipv4_addr i L98 s =
     (if proc_cnt s mod 10 = 0 then goto i L99 s else goto i L_release s)"
| "task_step env ipv4_addr i L99 s =
     (if length ipv4_addr = 0
      then goto i (Raised ZeroDivisionError) (s\<lparr>lock := None\<rparr>)
      else goto i (L100 (proc_cnt s)) s)"
| "task_step env ipv4_addr i (L100 p) s = goto i (L101 p (found_cnt s)) s"
| "task_step env ipv4_addr i (L101 p f) s =
     goto i L_release
       (s\<lparr>printed := printed s @ [Print_progress p (length ipv4_addr) f]\<rparr>)"
| "task_step env ipv4_addr i L_release s = goto i Returned (s\<lparr>lock := None\<rparr>)"
| "task_step env ipv4_addr i Returned s = s"
| "task_step env ipv4_addr i (Raised e) s = s"

text \<open>Scheduling task \<open>i\<close>: it takes its next step; an index that names no task does nothing.\<close>

definition step :: "resolver \<Rightarrow> string list \<Rightarrow> nat \<Rightarrow> pool \<Rightarrow> pool" where
  "step env ipv4_addr i s =
     (if i < length (tasks s) then task_step env ipv4_addr i (tasks s ! i) s else s)"

text \<open>
  A schedule is the order in which the tasks take their steps. The executor runs at
  most \<open>max_workers\<close> tasks at a time; every such run is one of the schedules.
\<close>

fun run_sched :: "resolver \<Rightarrow> string list \<Rightarrow> nat list \<Rightarrow> pool \<Rightarrow> pool" where
  "run_sched env ipv4_addr [] s = s"
| "run_sched env ipv4_addr (i # sched) s = run_sched env ipv4_addr sched (step env ipv4_addr i s)"

text \<open>Lines 81 to 84 and line 108: a free lock, zero counters, one fresh task per address.\<close>

definition pool_init :: "string list \<Rightarrow> pool" where
  "pool_init ipv4_addr =
     \<lparr>lock = None, proc_cnt = 0, found_cnt = 0, ipv6_results = [],
      tasks = replicate (length ipv4_addr) L89, printed = []\<rparr>"

fun finished :: "pc \<Rightarrow> bool" where
  "finished Returned = True"
| "finished (Raised e) = True"
| "finished l = False"

text \<open>
  Leaving the \<open>with ThreadPoolExecutor\<close> block waits until every task has finished.
  A schedule that stops before that is continued: the holder of the lock runs,
  or else the first unfinished task. \<open>todo\<close> bounds the steps a task still has.
\<close>

fun todo :: "pc \<Rightarrow> nat" where
  "todo L89 = 13"
| "todo (L91 ipv6) = 12"
| "todo (L92_load ipv6) = 11"
| "todo (L92_store ipv6 t) = 10"
| "todo (L93 ipv6) = 9"
| "todo (L94_load a) = 8"
| "todo (L94_store a t) = 7"
| "todo (L95 a) = 6"
| "todo L98 = 5"
| "todo L99 = 4"
| "todo (L100 p) = 3"
| "todo (L101 p f) = 2"
| "todo L_release = 1"
| "todo Returned = 0"
| "todo (Raised e) = 0"

definition pick :: "pool \<Rightarrow> nat option" where
  "pick s =
     (case lock s of
        Some i \<Rightarrow> Some i
      | None \<Rightarrow> (case filter (\<lambda>i. \<not> finished (tasks s ! i)) [0..<length (tasks s)] of
                   [] \<Rightarrow> None
                 | i # others \<Rightarrow> Some i))"

fun drain :: "resolver \<Rightarrow> string list \<Rightarrow> nat \<Rightarrow> pool \<Rightarrow> pool" where
  "drain env ipv4_addr 0 s = s"
| "drain env ipv4_addr (Suc k) s =
     (case pick s of
        None \<Rightarrow> s
      | Some i \<Rightarrow> drain env ipv4_addr k (step env ipv4_addr i s))"

definition run_pool :: "resolver \<Rightarrow> string list \<Rightarrow> nat list \<Rightarrow> pool" where
  "run_pool env ipv4_addr sched =
     (let s = run_sched env ipv4_addr sched (pool_init ipv4_addr)
      in drain env ipv4_addr (sum_list (map todo (tasks s))) s)"


section \<open>The whole run: \<open>process_ipv4_list\<close> and \<open>main\<close>\<close>

text \<open>
  The files and the resolver are the environment of a run:
  \<^item> \<open>input_read\<close>: what opening the input file and iterating over it gives, the
    exception raised or the lines;
  \<^item> \<open>open_output\<close>: the exception that \<open>open(output_file, 'w')\<close> raises, if any;
  \<^item> \<open>write_output k\<close>: the exception that the \<open>k\<close>-th call of \<open>f.write\<close> raises, if any
    (the file is buffered, so a write fails when it has to flush the buffer);
  \<^item> \<open>close_output\<close>: the exception that leaving the \<open>with\<close> block of line 122 raises,
    if any, when closing the file flushes what is still in the buffer;
  \<^item> \<open>flushed\<close>: how many characters of the text written have reached the file when
    a write or the close fails.
\<close>

record world =
  input_read :: "py_exn + string list"
  dns :: resolver
  open_output :: "py_exn option"
  write_output :: "nat \<Rightarrow> py_exn option"
  close_output :: "py_exn option"
  flushed :: nat

datatype ending = Return_None | Propagate py_exn

text \<open>
  What a call leaves behind: the console, the pool as it stands when the \<open>with\<close> block
  of line 106 is left (\<open>None\<close> when the call ends before line 81, so that no task was
  ever submitted), the output file (\<open>None\<close> when it was never opened, otherwise the
  text the truncated file holds), and how the call ends.
\<close>

record run =
  console :: "event list"
  pool_end :: "pool option"
  out_file :: "string option"
  ending :: ending

text \<open>
  Lines 112 to 116, once every task has finished. \<open>future.result()\<close> raises again what
  the task raised; \<open>except Exception as e\<close> takes it, and line 116 then evaluates
  \<open>"Error processing address: " + e\<close>, a \<open>str\<close> plus an exception object, which raises
  \<open>TypeError\<close> inside the handler. The order of \<open>as_completed\<close> does not matter for the
  result: nothing is printed before the first raise.
\<close>

fun fan_in :: "pc list \<Rightarrow> py_exn option" where
  "fan_in [] = None"
| "fan_in (Raised e # futures) = Some TypeError"
| "fan_in (l # futures) = fan_in futures"

text \<open>
  Lines 122 to 124: the loop over the results, one \<open>write\<close> per address. \<open>written\<close> is
  the text handed to the file so far; a call that raises has handed over its text too.
\<close>

fun write_loop ::
  "(nat \<Rightarrow> py_exn option) \<Rightarrow> nat \<Rightarrow> string list \<Rightarrow> string \<Rightarrow> string \<times> py_exn option"
where
  "write_loop wr k [] written = (written, None)"
| "write_loop wr k (ipv6 # results) written =
     (case wr k of
        Some e \<Rightarrow> (written @ ipv6 @ ''\<newline>'', Some e)
      | None \<Rightarrow> write_loop wr (Suc k) results (written @ ipv6 @ ''\<newline>''))"

text \<open>
  Lines 121 to 124 up to the handler: what the file holds afterwards and the exception
  that reaches line 125, if any. When a write or the close fails, the file holds the
  part of the text that was flushed before, which may end in the middle of a line.
\<close>

definition write_results :: "world \<Rightarrow> string list \<Rightarrow> string option \<times> py_exn option" where
  "write_results w results =
     (case open_output w of
        Some e \<Rightarrow> (None, Some e)
      | None \<Rightarrow>
          (case write_loop (write_output w) 0 results [] of
             (written, Some e) \<Rightarrow> (Some (take (flushed w) written), Some e)
           | (written, None) \<Rightarrow>
               (case close_output w of
                  Some e \<Rightarrow> (Some (take (flushed w) written), Some e)
                | None \<Rightarrow> (Some written, None))))"

text \<open>
  \<open>process_ipv4_list\<close>, line by line. The handlers of lines 70 and 125 build their
  message as \<open>"..." + e\<close> like line 116, so they raise \<open>TypeError\<close> and print nothing;
  the handler of line 67 concatenates strings only. \<open>ThreadPoolExecutor\<close> refuses a
  \<open>max_workers\<close> that is not positive with \<open>ValueError\<close>. Line 133 divides by
  \<open>proc_cnt\<close>.
\<close>

definition process_ipv4_list :: "world \<Rightarrow> string \<Rightarrow> string \<Rightarrow> int \<Rightarrow> nat list \<Rightarrow> run" where
  "process_ipv4_list w input_file output_file max_workers sched =
     (case input_read w of
        Inl e \<Rightarrow>
          if e = FileNotFoundError
          then \<lparr>console = [Print (''Error: Input file '' @ [CHR 0x27] @ input_file
                                    @ [CHR 0x27] @ '' not found'')],
                pool_end = None, out_file = None, ending = Return_None\<rparr>
          else \<lparr>console = [], pool_end = None, out_file = None, ending = Propagate TypeError\<rparr>
      | Inr f \<Rightarrow>
          (let ipv4_addr = read_loop f [] in
           if ipv4_addr = []
           then \<lparr>console = [Print ''No IPv4 addresses found in input file''],
                 pool_end = None, out_file = None, ending = Return_None\<rparr>
           else if max_workers \<le> 0
           then \<lparr>console = [Print_processing (length ipv4_addr)],
                 pool_end = None, out_file = None, ending = Propagate ValueError\<rparr>
           else
             (let s = run_pool (dns w) ipv4_addr sched;
                  out = Print_processing (length ipv4_addr) # printed s
              in case fan_in (tasks s) of
                   Some e \<Rightarrow>
                     \<lparr>console = out, pool_end = Some s, out_file = None, ending = Propagate e\<rparr>
                 | None \<Rightarrow>
                     (case write_results w (ipv6_results s) of
                        (file, Some e) \<Rightarrow>
                          \<lparr>console = out, pool_end = Some s, out_file = file,
                           ending = Propagate TypeError\<rparr>
                      | (file, None) \<Rightarrow>
                          if proc_cnt s = 0
                          then \<lparr>console = out @ [Print_completed, Print_total (proc_cnt s),
                                                  Print_found (found_cnt s)],
                                pool_end = Some s, out_file = file,
                                ending = Propagate ZeroDivisionError\<rparr>
                          else \<lparr>console = out @ [Print_completed, Print_total (proc_cnt s),
                                                  Print_found (found_cnt s),
                                                  Print_rate (found_cnt s) (proc_cnt s),
                                                  Print_saved output_file],
                                pool_end = Some s, out_file = file,
                                ending = Return_None\<rparr>))))"

definition main :: "world \<Rightarrow> nat list \<Rightarrow> run" where
  "main w sched =
     (let r = process_ipv4_list w ''list.ipv4'' ''list.ipv6'' 20 sched
      in r\<lparr>console := [Print ''IPv4 to IPv6 Lookup Tool'', Print (replicate 30 CHR ''='')]
                         @ console r\<rparr>)"


section \<open>Predicates of the proofs\<close>

text \<open>
  \<open>returns\<close>: the call of the resolver for this candidate returns (an address or
  \<open>None\<close>) instead of raising. \<open>found_list\<close>: what
  the task of this candidate adds to the results, the address when line 93 takes it.
\<close>

definition returns :: "resolver \<Rightarrow> string \<Rightarrow> bool" where
  "returns env c = (case resolve_ipv4_to_ipv6 env c of Inl e \<Rightarrow> False | Inr r \<Rightarrow> True)"

definition found_list :: "resolver \<Rightarrow> string \<Rightarrow> string list" where
  "found_list env c =
     (case resolve_ipv4_to_ipv6 env c of
        Inl e \<Rightarrow> []
      | Inr None \<Rightarrow> []
      | Inr (Some a) \<Rightarrow> if a \<noteq> [] then [a] else [])"

text \<open>The critical section: the program counters between the entry and the exit of \<open>with lock\<close>.\<close>

fun in_cs :: "pc \<Rightarrow> bool" where
  "in_cs L89 = False"
| "in_cs (L91 ipv6) = False"
| "in_cs Returned = False"
| "in_cs (Raised e) = False"
| "in_cs l = True"

text \<open>The lock is held by exactly the task that is inside the critical section.\<close>

definition lock_inv :: "pool \<Rightarrow> bool" where
  "lock_inv s \<longleftrightarrow>
     (\<forall>i < length (tasks s). in_cs (tasks s ! i) \<longleftrightarrow> lock s = Some i) \<and>
     (\<forall>i. lock s = Some i \<longrightarrow> i < length (tasks s))"

text \<open>
  What a task knows at each line, for its candidate \<open>c\<close> and the counters \<open>p\<close> and \<open>f\<close>: the
  value it carries is what the resolver gave, and a counter it has loaded is still the
  counter.
\<close>

fun local_ok :: "resolver \<Rightarrow> string \<Rightarrow> nat \<Rightarrow> nat \<Rightarrow> pc \<Rightarrow> bool" where
  "local_ok env c p f L89 = True"
| "local_ok env c p f (L91 r) = (resolve_ipv4_to_ipv6 env c = Inr r)"
| "local_ok env c p f (L92_load r) = (resolve_ipv4_to_ipv6 env c = Inr r)"
| "local_ok env c p f (L92_store r t) = (resolve_ipv4_to_ipv6 env c = Inr r \<and> t = p)"
| "local_ok env c p f (L93 r) = (resolve_ipv4_to_ipv6 env c = Inr r)"
| "local_ok env c p f (L94_load a) = (resolve_ipv4_to_ipv6 env c = Inr (Some a) \<and> a \<noteq> [])"
| "local_ok env c p f (L94_store a t) =
     (resolve_ipv4_to_ipv6 env c = Inr (Some a) \<and> a \<noteq> [] \<and> t = f)"
| "local_ok env c p f (L95 a) = (resolve_ipv4_to_ipv6 env c = Inr (Some a) \<and> a \<noteq> [])"
| "local_ok env c p f L98 = returns env c"
| "local_ok env c p f L99 = returns env c"
| "local_ok env c p f (L100 q) = (returns env c \<and> q = p)"
| "local_ok env c p f (L101 q g) = (returns env c \<and> q = p \<and> g = f)"
| "local_ok env c p f L_release = returns env c"
| "local_ok env c p f Returned = returns env c"
| "local_ok env c p f (Raised e) = (resolve_ipv4_to_ipv6 env c = Inl e)"

definition local_inv :: "resolver \<Rightarrow> string list \<Rightarrow> pool \<Rightarrow> bool" where
  "local_inv env cands s \<longleftrightarrow>
     length (tasks s) = length cands \<and>
     (\<forall>i < length (tasks s).
        local_ok env (cands ! i) (proc_cnt s) (found_cnt s) (tasks s ! i))"

text \<open>
  What each task has committed so far: \<open>counted_proc\<close> is 1 once its store of line 92 is
  done, \<open>counted_found\<close> is 1 once its store of line 94 is done, \<open>appended\<close> is its address
  once line 95 is done.
\<close>

fun counted_proc :: "pc \<Rightarrow> nat" where
  "counted_proc L89 = 0"
| "counted_proc (L91 r) = 0"
| "counted_proc (L92_load r) = 0"
| "counted_proc (L92_store r t) = 0"
| "counted_proc (Raised e) = 0"
| "counted_proc l = 1"

fun after_found :: "pc \<Rightarrow> bool" where
  "after_found (L95 a) = True"
| "after_found L98 = True"
| "after_found L99 = True"
| "after_found (L100 p) = True"
| "after_found (L101 p f) = True"
| "after_found L_release = True"
| "after_found Returned = True"
| "after_found l = False"

fun after_append :: "pc \<Rightarrow> bool" where
  "after_append L98 = True"
| "after_append L99 = True"
| "after_append (L100 p) = True"
| "after_append (L101 p f) = True"
| "after_append L_release = True"
| "after_append Returned = True"
| "after_append l = False"

definition counted_found :: "resolver \<Rightarrow> string \<Rightarrow> pc \<Rightarrow> nat" where
  "counted_found env c l = (if after_found l then length (found_list env c) else 0)"

definition appended :: "resolver \<Rightarrow> string \<Rightarrow> pc \<Rightarrow> string multiset" where
  "appended env c l = (if after_append l then mset (found_list env c) else {#})"

definition count_inv :: "resolver \<Rightarrow> string list \<Rightarrow> pool \<Rightarrow> bool" where
  "count_inv env cands s \<longleftrightarrow>
     proc_cnt s = sum_list (map counted_proc (tasks s)) \<and>
     found_cnt s = sum_list (map2 (counted_found env) cands (tasks s)) \<and>
     mset (ipv6_results s) = sum_list (map2 (appended env) cands (tasks s))"

text \<open>
  The tasks print progress lines only, and in each of them the number found is at most
  the number processed, which is at most the number of candidates.
\<close>

fun print_ok :: "string list \<Rightarrow> event \<Rightarrow> bool" where
  "print_ok cands (Print_progress p n f) = (f \<le> p \<and> p \<le> n \<and> n = length cands)"
| "print_ok cands ev = False"

definition print_inv :: "string list \<Rightarrow> pool \<Rightarrow> bool" where
  "print_inv cands s \<longleftrightarrow> (\<forall>ev \<in> set (printed s). print_ok cands ev)"

definition pool_inv :: "resolver \<Rightarrow> string list \<Rightarrow> pool \<Rightarrow> bool" where
  "pool_inv env cands s \<longleftrightarrow>
     lock_inv s \<and> local_inv env cands s \<and> count_inv env cands s \<and> print_inv cands s"

text \<open>
  Where a task ends: \<open>Raised e\<close> when the resolver raises \<open>e\<close> for its candidate (line 89),
  \<open>Returned\<close> otherwise.
\<close>

definition final_pc :: "resolver \<Rightarrow> string \<Rightarrow> pc" where
  "final_pc env c = (case resolve_ipv4_to_ipv6 env c of Inl e \<Rightarrow> Raised e | Inr r \<Rightarrow> Returned)"


text \<open>
  The specification's words for step 3 and step 4 of the resolver: the list without
  its repeated addresses, in the order of first appearance, and the outcome taken
  from it (\<open>Some a\<close> is \<open>Resolved a\<close>, \<open>None\<close> is \<open>Unresolved\<close>).
\<close>

fun spec_dedup :: "'a list \<Rightarrow> 'a list" where
  "spec_dedup [] = []"
| "spec_dedup (x # xs) = x # filter (\<lambda>y. y \<noteq> x) (spec_dedup xs)"

definition spec_outcome :: "string list \<Rightarrow> string option" where
  "spec_outcome addrs = (case addrs of [] \<Rightarrow> None | a # others \<Rightarrow> Some a)"


section \<open>Sample environments\<close>

text \<open>
  A resolver with one dual-stack host (two of its three records carry the same
  address, as the records for different socket types do), one host without an IPv6
  record, one host with an empty answer, and two candidates that the \<open>socket\<close> module
  refuses before any lookup: \<open>a..b\<close> has an empty label, which the IDNA encoding
  rejects with \<open>UnicodeError\<close>, and a string with a NUL character is rejected with
  \<open>TypeError\<close>. One address has a PTR record that names \<open>bad..host\<close>, which the forward
  lookup refuses in the same way. Every other candidate has no PTR record.
\<close>

definition demo_dns :: resolver where
  "demo_dns =
     \<lparr>gethostbyaddr = (\<lambda>a.
        if a = ''192.0.2.1'' then Inr (''six.example'', [], [''192.0.2.1''])
        else if a = ''192.0.2.7'' then Inr (''four.example'', [], [''192.0.2.7''])
        else if a = ''192.0.2.9'' then Inr (''none.example'', [], [''192.0.2.9''])
        else if a = ''192.0.2.66'' then Inr (''bad..host'', [], [''192.0.2.66''])
        else if a = ''a..b'' then Inl UnicodeError
        else if a = ''1.2.3.4'' @ [CHR 0x00] then Inl TypeError
        else Inl herror),
      getaddrinfo = (\<lambda>h.
        if h = ''six.example''
        then Inr [(10, 1, 6, [], (''2001:db8::1'', 0, 0, 0)),
                  (10, 2, 17, [], (''2001:db8::1'', 0, 0, 0)),
                  (10, 1, 6, [], (''2001:db8::2'', 0, 0, 0))]
        else if h = ''none.example'' then Inr []
        else if h = ''bad..host'' then Inl UnicodeError
        else Inl gaierror)\<rparr>"

definition demo_world :: "py_exn + string list \<Rightarrow> world" where
  "demo_world inp =
     \<lparr>input_read = inp, dns = demo_dns, open_output = None, write_output = (\<lambda>k. None),
      close_output = None, flushed = 0\<rparr>"

definition demo_lines :: "string list" where
  "demo_lines =
     [''# servers\<newline>'', ''\<newline>'', ''192.0.2.1\<newline>'', ''  192.0.2.7  \<newline>'',
      ''   # a note\<newline>'', ''192.0.2.200'']"


text \<open>
  The candidates of \<open>demo_lines\<close>; a file whose second candidate is refused by the \<open>socket\<close>
  module; a schedule that interleaves the tasks and stops early.
\<close>

definition demo_cands :: "string list" where
  "demo_cands = [''192.0.2.1'', ''192.0.2.7'', ''192.0.2.200'']"

definition demo_bad_lines :: "string list" where
  "demo_bad_lines = [''192.0.2.1\<newline>'', ''a..b\<newline>'']"

definition demo_sched :: "nat list" where
  "demo_sched = [2, 0, 1, 1, 0, 2, 0, 1]"

text \<open>
  The sample world with an output file that cannot be opened, with a disk that is
  full at the first write, and with a close that fails after five characters have
  reached the file.
\<close>

definition demo_no_open :: world where
  "demo_no_open = (demo_world (Inr demo_lines))\<lparr>open_output := Some PermissionError\<rparr>"

definition demo_disk_full :: world where
  "demo_disk_full =
     (demo_world (Inr demo_lines))\<lparr>write_output := (\<lambda>k. if k = 0 then Some OSError else None)\<rparr>"

definition demo_close_fails :: world where
  "demo_close_fails = (demo_world (Inr demo_lines))\<lparr>close_output := Some OSError, flushed := 5\<rparr>"

text \<open>
  Two pools in the middle and at the end of a run. In \<open>demo_mid\<close> task 0 has taken the
  lock and stored \<open>proc_cnt\<close>, and is about to store \<open>found_cnt\<close>, while task 1 waits at
  line 91. In \<open>demo_ten\<close> ten tasks have run one after the other, so that the tenth
  prints a progress line.
\<close>

definition demo_two :: "string list" where
  "demo_two = [''192.0.2.1'', ''192.0.2.7'']"

definition demo_mid :: pool where
  "demo_mid = run_sched demo_dns demo_two [0, 1, 0, 1, 0, 0, 0, 0] (pool_init demo_two)"

definition demo_ten :: pool where
  "demo_ten = run_sched demo_dns (replicate 10 ''192.0.2.1'')
                (concat (map (replicate 13) [0..<10])) (pool_init (replicate 10 ''192.0.2.1''))"


section \<open>The lock and the counters: invariants of every schedule\<close>

lemma goto_simps [simp]:
  "tasks (goto i l s) = (tasks s)[i := l]"
  "lock (goto i l s) = lock s"
  "proc_cnt (goto i l s) = proc_cnt s"
  "found_cnt (goto i l s) = found_cnt s"
  "ipv6_results (goto i l s) = ipv6_results s"
  "printed (goto i l s) = printed s"
  by (simp_all add: goto_def)

lemma length_tasks_step [simp]: "length (tasks (step env cands i s)) = length (tasks s)"
  by (cases "tasks s ! i") (auto simp: step_def split: sum.splits option.splits)

lemma lock_inv_step: "lock_inv s \<Longrightarrow> lock_inv (step env cands i s)"
proof (cases "i < length (tasks s)")
  case False
  assume "lock_inv s"
  with False show ?thesis by (simp add: step_def)
next
  case True
  assume inv: "lock_inv s"
  show ?thesis
  proof (cases "tasks s ! i")
    case L89
    with inv True show ?thesis
      by (auto simp: step_def lock_inv_def nth_list_update split: sum.splits)
  next
    case (L91 r)
    with inv True show ?thesis
      by (auto simp: step_def lock_inv_def nth_list_update)
  next
    case (L93 r)
    with inv True show ?thesis
      by (auto simp: step_def lock_inv_def nth_list_update split: option.splits)
  next
    case L_release
    with inv True show ?thesis
      by (auto simp: step_def lock_inv_def nth_list_update)
  next
    case L99
    with inv True show ?thesis
      by (auto simp: step_def lock_inv_def nth_list_update)
  qed (use inv True in \<open>auto simp: step_def lock_inv_def nth_list_update\<close>)
qed

lemma local_ok_outside: "\<not> in_cs l \<Longrightarrow> local_ok env c p f l = local_ok env c p' f' l"
  by (cases l) simp_all

lemma local_ok_others:
  assumes "lock_inv s" "i < length (tasks s)" "in_cs (tasks s ! i)" "j < length (tasks s)" "j \<noteq> i"
    and "local_ok env c (proc_cnt s) (found_cnt s) (tasks s ! j)"
  shows "local_ok env c p' f' (tasks s ! j)"
proof -
  from assms have "\<not> in_cs (tasks s ! j)" by (auto simp: lock_inv_def)
  with assms(6) local_ok_outside show ?thesis by blast
qed

lemma returns_Inr [simp]: "resolve_ipv4_to_ipv6 env c = Inr r \<Longrightarrow> returns env c"
  by (simp add: returns_def)

lemma local_inv_step:
  assumes lk: "lock_inv s" and inv: "local_inv env cands s"
  shows "local_inv env cands (step env cands i s)"
proof (cases "i < length (tasks s)")
  case False
  with inv show ?thesis by (simp add: step_def)
next
  case True
  note others = local_ok_others [OF lk True]
  from inv True have me: "local_ok env (cands ! i) (proc_cnt s) (found_cnt s) (tasks s ! i)"
    and len: "length (tasks s) = length cands"
    and all: "\<And>j. j < length (tasks s) \<Longrightarrow> local_ok env (cands ! j) (proc_cnt s) (found_cnt s) (tasks s ! j)"
    by (auto simp: local_inv_def)
  show ?thesis
  proof (cases "tasks s ! i")
    case (L92_store r t)
    with True me len all others show ?thesis
      by (auto simp: step_def local_inv_def nth_list_update)
  next
    case (L94_store a t)
    with True me len all others show ?thesis
      by (auto simp: step_def local_inv_def nth_list_update)
  next
    case L99
    with True me len all show ?thesis
      by (auto simp: step_def local_inv_def nth_list_update)
  qed (use True me len all in \<open>auto simp: step_def local_inv_def nth_list_update split: sum.splits option.splits\<close>)
qed

lemma sum_list_upd:
  fixes xs :: "'a::comm_monoid_add list"
  shows "i < length xs \<Longrightarrow> sum_list (xs[i := v]) + xs ! i = sum_list xs + v"
proof (induction xs arbitrary: i)
  case Nil
  then show ?case by simp
next
  case (Cons x xs)
  show ?case
  proof (cases i)
    case 0
    then show ?thesis by (simp add: ac_simps)
  next
    case (Suc k)
    with Cons.prems have "k < length xs" by simp
    from Cons.IH [OF this] have "sum_list (xs[k := v]) + xs ! k = sum_list xs + v" .
    with Suc show ?thesis by (simp add: add.assoc)
  qed
qed

lemma sum_map_upd:
  fixes f :: "'b \<Rightarrow> 'a::comm_monoid_add"
  assumes "i < length ts"
  shows "sum_list (map f (ts[i := l])) + f (ts ! i) = sum_list (map f ts) + f l"
  using sum_list_upd [of i "map f ts" "f l"] assms by (simp add: map_update)

lemma sum_map2_upd:
  fixes f :: "'c \<Rightarrow> 'b \<Rightarrow> 'a::comm_monoid_add"
  assumes "i < length ts" "length cs = length ts"
  shows "sum_list (map2 f cs (ts[i := l])) + f (cs ! i) (ts ! i) = sum_list (map2 f cs ts) + f (cs ! i) l"
proof -
  have "zip cs (ts[i := l]) = (zip cs ts)[i := (cs ! i, l)]"
    using assms by (simp add: update_zip)
  then show ?thesis
    using sum_map_upd [of i "zip cs ts" "\<lambda>(c, t). f c t" "(cs ! i, l)"] assms by simp
qed

lemma sum_map_same:
  fixes f :: "'b \<Rightarrow> 'a::cancel_comm_monoid_add"
  assumes "i < length ts" "f l = f (ts ! i)"
  shows "sum_list (map f (ts[i := l])) = sum_list (map f ts)"
  using sum_map_upd [OF assms(1), of f l] assms(2) by simp

lemma sum_map2_same:
  fixes f :: "'c \<Rightarrow> 'b \<Rightarrow> 'a::cancel_comm_monoid_add"
  assumes "i < length ts" "length cs = length ts" "f (cs ! i) l = f (cs ! i) (ts ! i)"
  shows "sum_list (map2 f cs (ts[i := l])) = sum_list (map2 f cs ts)"
  using sum_map2_upd [OF assms(1,2), of f l] assms(3) by simp

lemma found_list_Some [simp]:
  "resolve_ipv4_to_ipv6 env c = Inr (Some a) \<Longrightarrow> a \<noteq> [] \<Longrightarrow> found_list env c = [a]"
  by (simp add: found_list_def)

lemma found_list_falsy [simp]:
  "resolve_ipv4_to_ipv6 env c = Inr None \<Longrightarrow> found_list env c = []"
  "resolve_ipv4_to_ipv6 env c = Inr (Some []) \<Longrightarrow> found_list env c = []"
  "resolve_ipv4_to_ipv6 env c = Inl e \<Longrightarrow> found_list env c = []"
  by (simp_all add: found_list_def)

lemma proc_cnt_step:
  assumes inv: "local_inv env cands s"
    and cnt: "proc_cnt s = sum_list (map counted_proc (tasks s))"
  shows "proc_cnt (step env cands i s) = sum_list (map counted_proc (tasks (step env cands i s)))"
proof (cases "i < length (tasks s)")
  case False
  with cnt show ?thesis by (simp add: step_def)
next
  case True
  from inv True have me: "local_ok env (cands ! i) (proc_cnt s) (found_cnt s) (tasks s ! i)"
    by (simp add: local_inv_def)
  show ?thesis
  proof (cases "tasks s ! i")
    case (L92_store r t)
    with me have t: "t = proc_cnt s" by simp
    from sum_map_upd [OF True, of counted_proc "L93 r"] L92_store
    have "sum_list (map counted_proc ((tasks s)[i := L93 r])) = sum_list (map counted_proc (tasks s)) + 1"
      by simp
    with True L92_store t cnt show ?thesis by (simp add: step_def)
  next
    case L99
    from inv True have "cands \<noteq> []" by (auto simp: local_inv_def)
    with True cnt L99 show ?thesis by (simp add: step_def sum_map_same)
  qed (use True cnt in \<open>auto simp: step_def sum_map_same split: sum.splits option.splits\<close>)
qed

lemma found_cnt_step:
  assumes inv: "local_inv env cands s"
    and cnt: "found_cnt s = sum_list (map2 (counted_found env) cands (tasks s))"
  shows "found_cnt (step env cands i s) =
           sum_list (map2 (counted_found env) cands (tasks (step env cands i s)))"
proof (cases "i < length (tasks s)")
  case False
  with cnt show ?thesis by (simp add: step_def)
next
  case True
  from inv True have me: "local_ok env (cands ! i) (proc_cnt s) (found_cnt s) (tasks s ! i)"
    and len: "length cands = length (tasks s)"
    by (simp_all add: local_inv_def)
  note same = sum_map2_same [OF True len, of "counted_found env"]
  show ?thesis
  proof (cases "tasks s ! i")
    case (L94_store a t)
    with me have t: "t = found_cnt s" and r: "found_list env (cands ! i) = [a]" by simp_all
    from sum_map2_upd [OF True len, of "counted_found env" "L95 a"] L94_store r
    have "sum_list (map2 (counted_found env) cands ((tasks s)[i := L95 a]))
            = sum_list (map2 (counted_found env) cands (tasks s)) + 1"
      by (simp add: counted_found_def)
    with True L94_store t cnt show ?thesis by (simp add: step_def)
  next
    case (L93 r)
    with me have "resolve_ipv4_to_ipv6 env (cands ! i) = Inr r" by simp
    with True cnt L93 same show ?thesis
      by (auto simp: step_def counted_found_def split: option.splits)
  next
    case L99
    with True len cnt same show ?thesis
      by (auto simp: step_def counted_found_def)
  qed (use True cnt same in \<open>auto simp: step_def counted_found_def split: sum.splits\<close>)
qed

lemma results_step:
  assumes inv: "local_inv env cands s"
    and cnt: "mset (ipv6_results s) = sum_list (map2 (appended env) cands (tasks s))"
  shows "mset (ipv6_results (step env cands i s)) =
           sum_list (map2 (appended env) cands (tasks (step env cands i s)))"
proof (cases "i < length (tasks s)")
  case False
  with cnt show ?thesis by (simp add: step_def)
next
  case True
  from inv True have me: "local_ok env (cands ! i) (proc_cnt s) (found_cnt s) (tasks s ! i)"
    and len: "length cands = length (tasks s)"
    by (simp_all add: local_inv_def)
  note same = sum_map2_same [OF True len, of "appended env"]
  show ?thesis
  proof (cases "tasks s ! i")
    case (L95 a)
    with me have r: "found_list env (cands ! i) = [a]" by simp
    from sum_map2_upd [OF True len, of "appended env" L98] L95 r
    have "sum_list (map2 (appended env) cands ((tasks s)[i := L98]))
            = sum_list (map2 (appended env) cands (tasks s)) + {#a#}"
      by (simp add: appended_def)
    with True L95 cnt show ?thesis by (simp add: step_def)
  next
    case (L93 r)
    with me have "resolve_ipv4_to_ipv6 env (cands ! i) = Inr r" by simp
    with True cnt L93 same show ?thesis
      by (auto simp: step_def appended_def split: option.splits)
  next
    case L99
    with True len cnt same show ?thesis
      by (auto simp: step_def appended_def)
  qed (use True cnt same in \<open>auto simp: step_def appended_def split: sum.splits\<close>)
qed

lemma count_inv_step:
  "local_inv env cands s \<Longrightarrow> count_inv env cands s \<Longrightarrow> count_inv env cands (step env cands i s)"
  unfolding count_inv_def using proc_cnt_step found_cnt_step results_step by blast

lemma counted_found_le: "counted_found env c l \<le> counted_proc l"
  by (cases l) (auto simp: counted_found_def found_list_def split: sum.splits option.splits)

lemma counted_proc_le: "counted_proc l \<le> Suc 0"
  by (cases l) simp_all

lemma found_le_proc:
  assumes "local_inv env cands s" "count_inv env cands s"
  shows "found_cnt s \<le> proc_cnt s"
proof -
  from assms(1) have len: "length cands = length (tasks s)" by (simp add: local_inv_def)
  have "sum_list (map (\<lambda>(c, l). counted_found env c l) (zip cands (tasks s)))
          \<le> sum_list (map (\<lambda>(c, l). counted_proc l) (zip cands (tasks s)))"
    by (rule sum_list_mono) (auto simp: counted_found_le)
  moreover have "map (\<lambda>(c, l). counted_proc l) (zip cands (tasks s)) = map counted_proc (tasks s)"
  proof -
    have "map (\<lambda>(c, l). counted_proc l) (zip cands (tasks s))
            = map counted_proc (map snd (zip cands (tasks s)))"
      by (simp add: case_prod_unfold)
    also have "\<dots> = map counted_proc (tasks s)"
      using len by (simp only: map_snd_zip)
    finally show ?thesis .
  qed
  ultimately show ?thesis using assms(2) by (simp add: count_inv_def)
qed

lemma proc_le_length:
  assumes "count_inv env cands s"
  shows "proc_cnt s \<le> length (tasks s)"
proof -
  have "sum_list (map counted_proc (tasks s)) \<le> sum_list (map (\<lambda>l. 1) (tasks s))"
    by (rule sum_list_mono) (simp add: counted_proc_le)
  with assms show ?thesis by (simp add: count_inv_def sum_list_triv)
qed

lemma print_inv_step:
  assumes "local_inv env cands s" "count_inv env cands s" "print_inv cands s"
  shows "print_inv cands (step env cands i s)"
proof (cases "i < length (tasks s)")
  case False
  with assms(3) show ?thesis by (simp add: step_def)
next
  case True
  from assms(1) True have me: "local_ok env (cands ! i) (proc_cnt s) (found_cnt s) (tasks s ! i)"
    and len: "length (tasks s) = length cands"
    by (simp_all add: local_inv_def)
  show ?thesis
  proof (cases "tasks s ! i")
    case (L101 p f)
    with me have "p = proc_cnt s" "f = found_cnt s" by simp_all
    with found_le_proc [OF assms(1,2)] proc_le_length [OF assms(2)] len
    have "print_ok cands (Print_progress p (length cands) f)" by simp
    with True L101 assms(3) show ?thesis by (auto simp: step_def print_inv_def)
  qed (use True assms(3) in \<open>auto simp: step_def print_inv_def split: sum.splits option.splits\<close>)
qed

lemma pool_inv_step: "pool_inv env cands s \<Longrightarrow> pool_inv env cands (step env cands i s)"
  unfolding pool_inv_def
  using lock_inv_step local_inv_step count_inv_step print_inv_step by blast

lemma pool_inv_run_sched:
  "pool_inv env cands s \<Longrightarrow> pool_inv env cands (run_sched env cands sched s)"
  by (induction sched arbitrary: s) (simp_all add: pool_inv_step)

lemma pool_inv_drain: "pool_inv env cands s \<Longrightarrow> pool_inv env cands (drain env cands k s)"
  by (induction k arbitrary: s) (simp_all add: pool_inv_step split: option.splits)

lemma sum_map2_replicate:
  fixes f :: "'c \<Rightarrow> 'b \<Rightarrow> 'a::comm_monoid_add"
  assumes "\<And>c. f c l = 0"
  shows "sum_list (map2 f cs (replicate (length cs) l)) = 0"
  using assms by (induction cs) simp_all

lemma pool_inv_init: "pool_inv env cands (pool_init cands)"
  by (simp add: pool_inv_def pool_init_def lock_inv_def local_inv_def count_inv_def
      print_inv_def sum_map2_replicate counted_found_def appended_def)


section \<open>Every run of the pool finishes every task\<close>

lemma todo_finished: "todo l = 0 \<longleftrightarrow> finished l"
  by (cases l) simp_all

lemma step_progress:
  assumes "i < length (tasks s)"
    and "in_cs (tasks s ! i) \<or> (lock s = None \<and> \<not> finished (tasks s ! i))"
  shows "\<exists>l'. tasks (step env cands i s) = (tasks s)[i := l'] \<and> todo l' < todo (tasks s ! i)"
  using assms by (cases "tasks s ! i") (auto simp: step_def split: sum.splits option.splits)

lemma pick_None:
  assumes "lock_inv s" "pick s = None"
  shows "\<forall>l \<in> set (tasks s). finished l"
proof -
  from assms(2) have "filter (\<lambda>i. \<not> finished (tasks s ! i)) [0..<length (tasks s)] = []"
    by (auto simp: pick_def split: option.splits list.splits)
  then have "\<forall>i < length (tasks s). finished (tasks s ! i)"
    by (auto simp: filter_empty_conv)
  then show ?thesis by (auto simp: in_set_conv_nth)
qed

lemma pick_Some:
  assumes "lock_inv s" "pick s = Some i"
  shows "i < length (tasks s) \<and> (in_cs (tasks s ! i) \<or> (lock s = None \<and> \<not> finished (tasks s ! i)))"
proof (cases "lock s")
  case (Some j)
  with assms show ?thesis by (auto simp: pick_def lock_inv_def)
next
  case None
  with assms(2) obtain others where
    "filter (\<lambda>i. \<not> finished (tasks s ! i)) [0..<length (tasks s)] = i # others"
    by (auto simp: pick_def split: list.splits)
  then have "i \<in> set (filter (\<lambda>i. \<not> finished (tasks s ! i)) [0..<length (tasks s)])"
    by simp
  with None show ?thesis by simp
qed

lemma pick_decreases:
  assumes "lock_inv s" "pick s = Some i"
  shows "sum_list (map todo (tasks (step env cands i s))) < sum_list (map todo (tasks s))"
proof -
  from pick_Some [OF assms] have i: "i < length (tasks s)"
    and en: "in_cs (tasks s ! i) \<or> (lock s = None \<and> \<not> finished (tasks s ! i))" by simp_all
  from step_progress [OF i en] obtain l' where
    l': "tasks (step env cands i s) = (tasks s)[i := l']" "todo l' < todo (tasks s ! i)" by blast
  from sum_map_upd [OF i, of todo l'] l' show ?thesis by simp
qed

lemma drain_finishes:
  assumes "lock_inv s" "sum_list (map todo (tasks s)) \<le> k"
  shows "\<forall>l \<in> set (tasks (drain env cands k s)). finished l"
  using assms
proof (induction k arbitrary: s)
  case 0
  then have "\<forall>l \<in> set (tasks s). todo l = 0" by simp
  then show ?case by (simp add: todo_finished)
next
  case (Suc k)
  show ?case
  proof (cases "pick s")
    case None
    with pick_None [OF Suc.prems(1)] show ?thesis by simp
  next
    case (Some i)
    from pick_decreases [OF Suc.prems(1) Some, where env = env and cands = cands] Suc.prems(2)
    have "sum_list (map todo (tasks (step env cands i s))) \<le> k" by simp
    from Suc.IH [OF lock_inv_step [OF Suc.prems(1)] this] Some show ?thesis by simp
  qed
qed

lemma run_pool_inv: "pool_inv env cands (run_pool env cands sched)"
  by (simp add: run_pool_def Let_def pool_inv_drain pool_inv_run_sched pool_inv_init)

lemma run_pool_finished: "\<forall>l \<in> set (tasks (run_pool env cands sched)). finished l"
proof -
  have "pool_inv env cands (run_sched env cands sched (pool_init cands))"
    by (simp add: pool_inv_run_sched pool_inv_init)
  then have "lock_inv (run_sched env cands sched (pool_init cands))"
    by (simp add: pool_inv_def)
  from drain_finishes [OF this order_refl] show ?thesis
    by (simp add: run_pool_def Let_def)
qed

lemma drain_done:
  assumes "lock_inv s" "\<forall>l \<in> set (tasks s). finished l"
  shows "drain env cands k s = s"
proof (cases k)
  case 0
  then show ?thesis by simp
next
  case (Suc k')
  have "pick s = None"
  proof (cases "pick s")
    case (Some i)
    from pick_Some [OF assms(1) Some] assms(2) show ?thesis
      by (cases "tasks s ! i") (auto simp: in_set_conv_nth dest!: nth_mem)
  qed simp
  with Suc show ?thesis by simp
qed


text \<open>
  What \<open>run_pool\<close> adds to a schedule is a schedule again, and it adds nothing to a
  schedule that already lets every task finish: the states of \<open>run_pool\<close> are states
  of \<open>run_sched\<close>.
\<close>

lemma run_sched_append:
  "run_sched env cands (xs @ ys) s = run_sched env cands ys (run_sched env cands xs s)"
  by (induction xs arbitrary: s) simp_all

lemma drain_is_schedule: "\<exists>more. drain env cands k s = run_sched env cands more s"
proof (induction k arbitrary: s)
  case 0
  have "drain env cands 0 s = run_sched env cands [] s" by simp
  then show ?case by blast
next
  case (Suc k)
  show ?case
  proof (cases "pick s")
    case None
    then have "drain env cands (Suc k) s = run_sched env cands [] s" by simp
    then show ?thesis by blast
  next
    case (Some i)
    from Suc.IH [of "step env cands i s"] obtain more where
      "drain env cands k (step env cands i s) = run_sched env cands more (step env cands i s)"
      by blast
    with Some have "drain env cands (Suc k) s = run_sched env cands (i # more) s" by simp
    then show ?thesis by blast
  qed
qed

lemma run_pool_is_schedule:
  "\<exists>more. run_pool env cands sched = run_sched env cands (sched @ more) (pool_init cands)"
  using drain_is_schedule [of env cands _ "run_sched env cands sched (pool_init cands)"]
  by (auto simp: run_pool_def Let_def run_sched_append)

lemma run_pool_complete:
  assumes "\<forall>l \<in> set (tasks (run_sched env cands sched (pool_init cands))). finished l"
  shows "run_pool env cands sched = run_sched env cands sched (pool_init cands)"
proof -
  have "pool_inv env cands (run_sched env cands sched (pool_init cands))"
    by (simp add: pool_inv_run_sched pool_inv_init)
  then have "lock_inv (run_sched env cands sched (pool_init cands))"
    by (simp add: pool_inv_def)
  from drain_done [OF this assms] show ?thesis by (simp add: run_pool_def Let_def)
qed

lemma step_changes:
  assumes "i < length (tasks s)"
    and "in_cs (tasks s ! i) \<or> (lock s = None \<and> \<not> finished (tasks s ! i))"
  shows "step env cands i s \<noteq> s"
proof
  assume eq: "step env cands i s = s"
  from step_progress [OF assms, of env cands] obtain l' where
    "tasks (step env cands i s) = (tasks s)[i := l']" "todo l' < todo (tasks s ! i)" by blast
  with eq have "tasks s = (tasks s)[i := l']" "todo l' < todo (tasks s ! i)" by simp_all
  then have "tasks s ! i = (tasks s)[i := l'] ! i" by simp
  with assms(1) have "tasks s ! i = l'" by simp
  with \<open>todo l' < todo (tasks s ! i)\<close> show False by simp
qed

text \<open>
  The lock never blocks the pool: in every state that a schedule reaches and in which
  some task has not finished, some task can take a step. (The holder of the lock can
  always go on to the exit of the block, which frees the lock.)
\<close>

theorem pool_never_deadlocks:
  assumes "s = run_sched env cands sched (pool_init cands)"
    and "\<exists>l \<in> set (tasks s). \<not> finished l"
  shows "\<exists>i < length (tasks s). step env cands i s \<noteq> s"
proof -
  from assms(1) have "pool_inv env cands s" by (simp add: pool_inv_run_sched pool_inv_init)
  then have lk: "lock_inv s" by (simp add: pool_inv_def)
  show ?thesis
  proof (cases "pick s")
    case None
    from pick_None [OF lk None] assms(2) show ?thesis by blast
  next
    case (Some i)
    from pick_Some [OF lk Some] step_changes [of i s env cands] show ?thesis by blast
  qed
qed

text \<open>In \<open>demo_mid\<close> task 1 waits for the lock and task 0, which holds it, moves.\<close>

theorem pool_never_deadlocks_witness:
  "tasks demo_mid = [L94_store ''2001:db8::1'' 0, L91 None] \<and>
   step demo_dns demo_two 1 demo_mid = demo_mid \<and>
   step demo_dns demo_two 0 demo_mid \<noteq> demo_mid"
proof -
  have ev: "tasks demo_mid = [L94_store ''2001:db8::1'' 0, L91 None]"
    "step demo_dns demo_two 1 demo_mid = demo_mid"
    by code_simp+
  from ev(1) have un: "\<exists>l \<in> set (tasks demo_mid). \<not> finished l" by simp
  from pool_never_deadlocks [OF demo_mid_def un] obtain i where
    i: "i < length (tasks demo_mid)" "step demo_dns demo_two i demo_mid \<noteq> demo_mid" by blast
  from i(1) ev(1) have "i = 0 \<or> i = 1" by auto
  with i(2) ev(2) have "step demo_dns demo_two 0 demo_mid \<noteq> demo_mid" by auto
  with ev show ?thesis by simp
qed


section \<open>The critical section\<close>

lemma mutation_needs_lock:
  assumes "lock_inv s"
    and "proc_cnt (step env cands k s) \<noteq> proc_cnt s \<or>
         found_cnt (step env cands k s) \<noteq> found_cnt s \<or>
         ipv6_results (step env cands k s) \<noteq> ipv6_results s \<or>
         printed (step env cands k s) \<noteq> printed s"
  shows "lock s = Some k \<and> lock (step env cands k s) = Some k"
proof (cases "k < length (tasks s)")
  case False
  with assms(2) show ?thesis by (simp add: step_def)
next
  case True
  with assms(1) have cs: "in_cs (tasks s ! k) \<Longrightarrow> lock s = Some k"
    by (simp add: lock_inv_def)
  from True assms(2) cs show ?thesis
    by (cases "tasks s ! k") (auto simp: step_def split: sum.splits option.splits if_splits)
qed

text \<open>
  Claim C3. In every state that any schedule of the tasks reaches: the number found is
  at most the number processed, also in every progress line printed so far; the lock is
  held by exactly the task that is between the entry and the exit of the \<open>with lock\<close>
  block, so at most one task is there; a step that changes a counter, the result list
  or the console is a step of the task that holds the lock, and it still holds it
  afterwards; and no update is lost: each counter is the number of tasks that have done
  their store to it, and the result list holds the addresses of the tasks that have
  done their append.
\<close>

theorem lock_protects_shared_state:
  assumes "s = run_sched env cands sched (pool_init cands)"
  shows "found_cnt s \<le> proc_cnt s \<and>
         (\<forall>p n f. Print_progress p n f \<in> set (printed s) \<longrightarrow> f \<le> p) \<and>
         (\<forall>i < length (tasks s). in_cs (tasks s ! i) \<longleftrightarrow> lock s = Some i) \<and>
         (\<forall>i j. i < length (tasks s) \<longrightarrow> j < length (tasks s) \<longrightarrow>
                in_cs (tasks s ! i) \<longrightarrow> in_cs (tasks s ! j) \<longrightarrow> i = j) \<and>
         (\<forall>k. proc_cnt (step env cands k s) \<noteq> proc_cnt s \<or>
               found_cnt (step env cands k s) \<noteq> found_cnt s \<or>
               ipv6_results (step env cands k s) \<noteq> ipv6_results s \<or>
               printed (step env cands k s) \<noteq> printed s \<longrightarrow>
               lock s = Some k \<and> lock (step env cands k s) = Some k) \<and>
         proc_cnt s = sum_list (map counted_proc (tasks s)) \<and>
         found_cnt s = sum_list (map2 (counted_found env) cands (tasks s)) \<and>
         mset (ipv6_results s) = sum_list (map2 (appended env) cands (tasks s))"
proof -
  from assms have inv: "pool_inv env cands s"
    by (simp add: pool_inv_run_sched pool_inv_init)
  then have lk: "lock_inv s" and li: "local_inv env cands s"
    and ci: "count_inv env cands s" and pi: "print_inv cands s"
    by (simp_all add: pool_inv_def)
  have a: "found_cnt s \<le> proc_cnt s" by (rule found_le_proc [OF li ci])
  have b: "\<forall>p n f. Print_progress p n f \<in> set (printed s) \<longrightarrow> f \<le> p"
    using pi by (auto simp: print_inv_def)
  have c: "\<forall>i < length (tasks s). in_cs (tasks s ! i) \<longleftrightarrow> lock s = Some i"
    using lk by (simp add: lock_inv_def)
  have d: "\<forall>i j. i < length (tasks s) \<longrightarrow> j < length (tasks s) \<longrightarrow>
                in_cs (tasks s ! i) \<longrightarrow> in_cs (tasks s ! j) \<longrightarrow> i = j"
    using c by auto
  have e: "\<forall>k. proc_cnt (step env cands k s) \<noteq> proc_cnt s \<or>
               found_cnt (step env cands k s) \<noteq> found_cnt s \<or>
               ipv6_results (step env cands k s) \<noteq> ipv6_results s \<or>
               printed (step env cands k s) \<noteq> printed s \<longrightarrow>
               lock s = Some k \<and> lock (step env cands k s) = Some k"
    using mutation_needs_lock [OF lk] by blast
  from a b c d e ci show ?thesis unfolding count_inv_def by blast
qed

text \<open>
  In \<open>demo_mid\<close> the counters are 1 and 0, task 0 holds the lock, a step of task 1 changes
  nothing, and the step of task 0 that stores \<open>found_cnt\<close> leaves the lock with task 0.
  In \<open>demo_ten\<close> the progress line shows 10 found of 10 processed.
\<close>

theorem lock_protects_shared_state_witness:
  "found_cnt demo_mid \<le> proc_cnt demo_mid \<and>
   tasks demo_mid = [L94_store ''2001:db8::1'' 0, L91 None] \<and>
   lock demo_mid = Some 0 \<and>
   step demo_dns demo_two 1 demo_mid = demo_mid \<and>
   found_cnt (step demo_dns demo_two 0 demo_mid) = 1 \<and>
   lock (step demo_dns demo_two 0 demo_mid) = Some 0 \<and>
   printed demo_ten = [Print_progress 10 10 10] \<and>
   found_cnt demo_ten \<le> proc_cnt demo_ten"
proof -
  note mid = lock_protects_shared_state [of demo_mid demo_dns demo_two "[0, 1, 0, 1, 0, 0, 0, 0]",
      OF demo_mid_def]
  note ten = lock_protects_shared_state [OF demo_ten_def]
  have ev: "tasks demo_mid = [L94_store ''2001:db8::1'' 0, L91 None]"
    "step demo_dns demo_two 1 demo_mid = demo_mid"
    "found_cnt (step demo_dns demo_two 0 demo_mid) = 1"
    "found_cnt demo_mid = 0"
    "printed demo_ten = [Print_progress 10 10 10]"
    by code_simp+
  from mid have le: "found_cnt demo_mid \<le> proc_cnt demo_mid" by blast
  from mid have c: "\<forall>i < length (tasks demo_mid).
      in_cs (tasks demo_mid ! i) \<longleftrightarrow> lock demo_mid = Some i" by blast
  from c [rule_format, of 0] ev(1) have lk: "lock demo_mid = Some 0" by simp
  from mid have e: "\<forall>k. proc_cnt (step demo_dns demo_two k demo_mid) \<noteq> proc_cnt demo_mid \<or>
               found_cnt (step demo_dns demo_two k demo_mid) \<noteq> found_cnt demo_mid \<or>
               ipv6_results (step demo_dns demo_two k demo_mid) \<noteq> ipv6_results demo_mid \<or>
               printed (step demo_dns demo_two k demo_mid) \<noteq> printed demo_mid \<longrightarrow>
               lock demo_mid = Some k \<and> lock (step demo_dns demo_two k demo_mid) = Some k"
    by blast
  from e [rule_format, of 0] ev(3,4) have "lock (step demo_dns demo_two 0 demo_mid) = Some 0"
    by simp
  moreover from ten have "found_cnt demo_ten \<le> proc_cnt demo_ten" by blast
  ultimately show ?thesis using le lk ev by simp
qed

section \<open>The input loader\<close>

lemma read_loop_acc:
  "read_loop f acc = acc @ filter (\<lambda>l. l \<noteq> [] \<and> \<not> startswith l ''#'') (map strip f)"
  by (induction f arbitrary: acc) (simp_all add: Let_def)

text \<open>
  Claim C1. For every input file, the list the loader builds is exactly the list of the
  stripped lines that are non-empty and do not start with \<open>#\<close>, in the order of the
  input; no empty line and no comment line is in it.
\<close>

theorem loader_keeps_candidates_in_order:
  "read_loop f [] = filter (\<lambda>l. l \<noteq> [] \<and> \<not> startswith l ''#'') (map strip f) \<and>
   (\<forall>c \<in> set (read_loop f []). c \<noteq> [] \<and> \<not> startswith c ''#'')"
  by (simp add: read_loop_acc)

text \<open>
  The sample file has a comment, a blank line, two addresses (one of them indented), an
  indented comment and a last line without a newline: three candidates remain.
\<close>

theorem loader_keeps_candidates_in_order_witness:
  "read_loop demo_lines [] = [''192.0.2.1'', ''192.0.2.7'', ''192.0.2.200''] \<and>
   filter (\<lambda>l. l \<noteq> [] \<and> \<not> startswith l ''#'') (map strip demo_lines)
     = [''192.0.2.1'', ''192.0.2.7'', ''192.0.2.200'']"
  using loader_keeps_candidates_in_order [of demo_lines]
  by (simp add: demo_lines_def strip_def isspace_def startswith_def)


section \<open>The resolver\<close>

text \<open>\<open>spec_dedup\<close> is a de-duplication that keeps the first occurrence of each element.\<close>

lemma spec_dedup_set [simp]: "set (spec_dedup xs) = set xs"
  by (induction xs) auto

lemma spec_dedup_distinct: "distinct (spec_dedup xs)"
  by (induction xs) auto

lemma remdups_snoc: "remdups (xs @ [x]) = filter (\<lambda>y. y \<noteq> x) (remdups xs) @ [x]"
  by (induction xs) auto

lemma spec_dedup_first_seen: "spec_dedup xs = rev (remdups (rev xs))"
  by (induction xs) (simp_all add: remdups_snoc rev_filter)

text \<open>The loop of lines 32 to 36 computes it, after what the list already holds.\<close>

lemma extract_loop_spec:
  "extract_loop addr_info acc
     = acc @ filter (\<lambda>a. a \<notin> set acc) (spec_dedup (map info_4_0 addr_info))"
proof (induction addr_info arbitrary: acc)
  case Nil
  then show ?case by simp
next
  case (Cons info addr_info)
  have "filter (\<lambda>a. a \<notin> set acc \<and> a \<noteq> info_4_0 info) xs
          = filter (\<lambda>a. a \<notin> set acc) xs" if "info_4_0 info \<in> set acc" for xs
    using that by (intro filter_cong) auto
  moreover have "filter (\<lambda>a. a \<noteq> info_4_0 info \<and> a \<notin> set acc) xs
          = filter (\<lambda>a. a \<notin> set acc \<and> a \<noteq> info_4_0 info) xs" for xs
    by (intro filter_cong) auto
  ultimately show ?case
    by (simp add: Cons.IH Let_def)
qed

lemma try_body_ok:
  assumes "gethostbyaddr env c = Inr (hostname, aliases, addrs)"
    and "getaddrinfo env hostname = Inr addr_info"
  shows "try_body env c = Inr (spec_outcome (extract_loop addr_info []))"
  using assms by (simp add: try_body_def spec_outcome_def split: list.splits)

lemma extract_loop_keeps_head:
  "acc \<noteq> [] \<Longrightarrow> hd (extract_loop addr_info acc) = hd acc \<and> extract_loop addr_info acc \<noteq> []"
  by (induction addr_info arbitrary: acc) (simp_all add: Let_def)

lemma extract_loop_first:
  "\<exists>others. extract_loop (info # addr_info) [] = info_4_0 info # others"
proof -
  have "extract_loop (info # addr_info) [] = extract_loop addr_info [info_4_0 info]"
    by simp
  moreover have "hd (extract_loop addr_info [info_4_0 info]) = info_4_0 info
      \<and> extract_loop addr_info [info_4_0 info] \<noteq> []"
    using extract_loop_keeps_head [of "[info_4_0 info]" addr_info] by simp
  ultimately show ?thesis
    by (cases "extract_loop addr_info [info_4_0 info]") auto
qed

text \<open>
  Claim C2 does not hold of the code. What the resolver does, for every candidate and
  every environment: when both lookups answer, the result is the first address of the
  answer de-duplicated in first-seen order, and \<open>None\<close> when there is none; a lookup
  that raises an \<open>OSError\<close> (which \<open>socket.herror\<close> and \<open>socket.gaierror\<close> are) gives
  \<open>None\<close>; a lookup that raises anything else makes the resolver raise it, where the
  claim wants \<open>None\<close>.
\<close>

theorem resolve_by_cases:
  "resolve_ipv4_to_ipv6 env c =
     (case gethostbyaddr env c of
        Inl e \<Rightarrow> if isinstance_OSError e then Inr None else Inl e
      | Inr (hostname, aliases, addrs) \<Rightarrow>
          (case getaddrinfo env hostname of
             Inl e \<Rightarrow> if isinstance_OSError e then Inr None else Inl e
           | Inr addr_info \<Rightarrow> Inr (spec_outcome (spec_dedup (map info_4_0 addr_info)))))"
proof (cases "gethostbyaddr env c")
  case (Inl e)
  then show ?thesis by (simp add: resolve_ipv4_to_ipv6_def try_body_def)
next
  case (Inr answer)
  obtain hostname aliases addrs where answer: "answer = (hostname, aliases, addrs)"
    by (cases answer)
  show ?thesis
  proof (cases "getaddrinfo env hostname")
    case (Inl e)
    with Inr answer show ?thesis by (simp add: resolve_ipv4_to_ipv6_def try_body_def)
  next
    case forward: (Inr addr_info)
    from Inr answer have "gethostbyaddr env c = Inr (hostname, aliases, addrs)" by simp
    from try_body_ok [OF this forward] Inr answer forward show ?thesis
      by (simp add: resolve_ipv4_to_ipv6_def extract_loop_spec)
  qed
qed

text \<open>
  The dual-stack host, whose three records hold two distinct addresses, gives the first
  of them; an address without a PTR record and a host whose forward lookup fails give
  \<open>None\<close>; for the candidate \<open>a..b\<close> the reverse lookup raises \<open>UnicodeError\<close>, and so does
  the resolver.
\<close>

theorem resolve_by_cases_witness:
  "map info_4_0 (projr (getaddrinfo demo_dns ''six.example''))
     = [''2001:db8::1'', ''2001:db8::1'', ''2001:db8::2''] \<and>
   spec_dedup [''2001:db8::1'', ''2001:db8::1'', ''2001:db8::2'']
     = [''2001:db8::1'', ''2001:db8::2''] \<and>
   resolve_ipv4_to_ipv6 demo_dns ''192.0.2.1'' = Inr (Some ''2001:db8::1'') \<and>
   gethostbyaddr demo_dns ''203.0.113.5'' = Inl herror \<and>
   resolve_ipv4_to_ipv6 demo_dns ''203.0.113.5'' = Inr None \<and>
   resolve_ipv4_to_ipv6 demo_dns ''192.0.2.7'' = Inr None \<and>
   gethostbyaddr demo_dns ''a..b'' = Inl UnicodeError \<and>
   resolve_ipv4_to_ipv6 demo_dns ''a..b'' = Inl UnicodeError"
proof -
  have a: "gethostbyaddr demo_dns ''203.0.113.5'' = Inl herror"
    and b: "gethostbyaddr demo_dns ''192.0.2.1'' = Inr (''six.example'', [], [''192.0.2.1''])"
    and c: "getaddrinfo demo_dns ''six.example''
             = Inr [(10, 1, 6, [], (''2001:db8::1'', 0, 0, 0)),
                    (10, 2, 17, [], (''2001:db8::1'', 0, 0, 0)),
                    (10, 1, 6, [], (''2001:db8::2'', 0, 0, 0))]"
    and d: "gethostbyaddr demo_dns ''192.0.2.7'' = Inr (''four.example'', [], [''192.0.2.7''])"
    and e: "getaddrinfo demo_dns ''four.example'' = Inl gaierror"
    and f: "gethostbyaddr demo_dns ''a..b'' = Inl UnicodeError"
    by (simp_all add: demo_dns_def)
  from resolve_by_cases [of demo_dns "''192.0.2.1''"] b c
  have "resolve_ipv4_to_ipv6 demo_dns ''192.0.2.1'' = Inr (Some ''2001:db8::1'')"
    by (simp add: spec_outcome_def)
  moreover from resolve_by_cases [of demo_dns "''203.0.113.5''"] a
  have "resolve_ipv4_to_ipv6 demo_dns ''203.0.113.5'' = Inr None" by simp
  moreover from resolve_by_cases [of demo_dns "''192.0.2.7''"] d e
  have "resolve_ipv4_to_ipv6 demo_dns ''192.0.2.7'' = Inr None" by simp
  moreover from resolve_by_cases [of demo_dns "''a..b''"] f
  have "resolve_ipv4_to_ipv6 demo_dns ''a..b'' = Inl UnicodeError" by simp
  ultimately show ?thesis using a c f by simp
qed

text \<open>
  Claim C5 does not hold of the code. The resolver raises exactly when one of its two
  lookups raises something that is not an \<open>OSError\<close>, and then it raises that. A reverse
  or a forward lookup that fails with an \<open>OSError\<close>, and an empty answer of the forward
  lookup, give \<open>None\<close>.
\<close>

theorem resolve_raises_what_is_not_OSError:
  "(resolve_ipv4_to_ipv6 env c = Inl e \<longleftrightarrow>
      \<not> isinstance_OSError e \<and>
      (gethostbyaddr env c = Inl e \<or>
       (\<exists>hostname aliases addrs.
          gethostbyaddr env c = Inr (hostname, aliases, addrs) \<and>
          getaddrinfo env hostname = Inl e))) \<and>
   (gethostbyaddr env c = Inl e' \<longrightarrow> isinstance_OSError e' \<longrightarrow>
      resolve_ipv4_to_ipv6 env c = Inr None) \<and>
   (gethostbyaddr env c = Inr (hostname, aliases, addrs) \<longrightarrow>
    getaddrinfo env hostname = Inl e' \<longrightarrow> isinstance_OSError e' \<longrightarrow>
      resolve_ipv4_to_ipv6 env c = Inr None) \<and>
   (gethostbyaddr env c = Inr (hostname, aliases, addrs) \<longrightarrow>
    getaddrinfo env hostname = Inr [] \<longrightarrow>
      resolve_ipv4_to_ipv6 env c = Inr None)"
  by (auto simp: resolve_ipv4_to_ipv6_def try_body_def split: sum.splits if_splits list.splits)

text \<open>
  For the candidate \<open>1.2.3.4\<close> followed by a NUL character the reverse lookup raises
  \<open>TypeError\<close>, and for \<open>192.0.2.66\<close> the forward lookup raises \<open>UnicodeError\<close>: the
  resolver raises both. The three other candidates fail with an \<open>OSError\<close> or have an
  empty answer, and give \<open>None\<close>.
\<close>

theorem resolve_raises_what_is_not_OSError_witness:
  "resolve_ipv4_to_ipv6 demo_dns (''1.2.3.4'' @ [CHR 0x00]) = Inl TypeError \<and>
   resolve_ipv4_to_ipv6 demo_dns ''192.0.2.66'' = Inl UnicodeError \<and>
   resolve_ipv4_to_ipv6 demo_dns ''203.0.113.5'' = Inr None \<and>
   resolve_ipv4_to_ipv6 demo_dns ''192.0.2.7'' = Inr None \<and>
   resolve_ipv4_to_ipv6 demo_dns ''192.0.2.9'' = Inr None"
proof -
  have a: "gethostbyaddr demo_dns ''203.0.113.5'' = Inl herror"
    and b: "gethostbyaddr demo_dns ''192.0.2.7'' = Inr (''four.example'', [], [''192.0.2.7''])"
    and c: "getaddrinfo demo_dns ''four.example'' = Inl gaierror"
    and d: "gethostbyaddr demo_dns ''192.0.2.9'' = Inr (''none.example'', [], [''192.0.2.9''])"
    and e: "getaddrinfo demo_dns ''none.example'' = Inr []"
    and f: "gethostbyaddr demo_dns (''1.2.3.4'' @ [CHR 0x00]) = Inl TypeError"
    and g: "gethostbyaddr demo_dns ''192.0.2.66'' = Inr (''bad..host'', [], [''192.0.2.66''])"
    and h: "getaddrinfo demo_dns ''bad..host'' = Inl UnicodeError"
    by (simp_all add: demo_dns_def)
  from resolve_raises_what_is_not_OSError [of demo_dns "''1.2.3.4'' @ [CHR 0x00]" TypeError] f
  have "resolve_ipv4_to_ipv6 demo_dns (''1.2.3.4'' @ [CHR 0x00]) = Inl TypeError" by simp
  moreover from resolve_raises_what_is_not_OSError [of demo_dns "''192.0.2.66''" UnicodeError] g h
  have "resolve_ipv4_to_ipv6 demo_dns ''192.0.2.66'' = Inl UnicodeError" by simp
  moreover from resolve_raises_what_is_not_OSError [of demo_dns "''203.0.113.5''" _ herror] a
  have "resolve_ipv4_to_ipv6 demo_dns ''203.0.113.5'' = Inr None" by simp
  moreover from resolve_raises_what_is_not_OSError [of demo_dns "''192.0.2.7''" _ gaierror] b c
  have "resolve_ipv4_to_ipv6 demo_dns ''192.0.2.7'' = Inr None" by simp
  moreover from resolve_raises_what_is_not_OSError [of demo_dns "''192.0.2.9''"] d e
  have "resolve_ipv4_to_ipv6 demo_dns ''192.0.2.9'' = Inr None" by simp
  ultimately show ?thesis by simp
qed

text \<open>
  Claim C10. When the forward lookup gives a non-empty list of records, the resolver
  returns the address of the first record of that list as it came, before any
  de-duplication.
\<close>

theorem first_raw_address_is_returned:
  assumes "gethostbyaddr env c = Inr (hostname, aliases, addrs)"
    and "getaddrinfo env hostname = Inr (info # addr_info)"
  shows "resolve_ipv4_to_ipv6 env c = Inr (Some (info_4_0 info))"
proof -
  from extract_loop_first [of info addr_info] obtain others where
    "extract_loop (info # addr_info) [] = info_4_0 info # others" by blast
  with assms show ?thesis
    by (simp add: resolve_ipv4_to_ipv6_def try_body_def del: extract_loop.simps)
qed

text \<open>
  For the dual-stack host the loop shortens three records to two addresses, and the
  address returned is that of the first record.
\<close>

theorem first_raw_address_is_returned_witness:
  "resolve_ipv4_to_ipv6 demo_dns ''192.0.2.1'' = Inr (Some ''2001:db8::1'') \<and>
   extract_loop (projr (getaddrinfo demo_dns ''six.example'')) []
     = [''2001:db8::1'', ''2001:db8::2'']"
proof -
  have b: "gethostbyaddr demo_dns ''192.0.2.1'' = Inr (''six.example'', [], [''192.0.2.1''])"
    by (simp add: demo_dns_def)
  have c: "getaddrinfo demo_dns ''six.example''
             = Inr ((10, 1, 6, [], (''2001:db8::1'', 0, 0, 0)) #
                    [(10, 2, 17, [], (''2001:db8::1'', 0, 0, 0)),
                     (10, 1, 6, [], (''2001:db8::2'', 0, 0, 0))])"
    by (simp add: demo_dns_def)
  from first_raw_address_is_returned [OF b c] c show ?thesis by simp
qed


section \<open>The pool when every task has finished\<close>

lemma final_tasks:
  assumes inv: "local_inv env cands s" and fin: "\<forall>l \<in> set (tasks s). finished l"
  shows "tasks s = map (final_pc env) cands"
proof (rule nth_equalityI)
  from inv show "length (tasks s) = length (map (final_pc env) cands)"
    by (simp add: local_inv_def)
next
  fix i assume i: "i < length (tasks s)"
  with inv have ok: "local_ok env (cands ! i) (proc_cnt s) (found_cnt s) (tasks s ! i)"
    and len: "length (tasks s) = length cands"
    by (simp_all add: local_inv_def)
  from i fin have "finished (tasks s ! i)" by simp
  with ok have "tasks s ! i = final_pc env (cands ! i)"
    by (cases "tasks s ! i") (auto simp: final_pc_def returns_def split: sum.splits)
  with i len show "tasks s ! i = map (final_pc env) cands ! i" by simp
qed

lemma sum_final_proc:
  "sum_list (map counted_proc (map (final_pc env) cands)) = length (filter (returns env) cands)"
  by (induction cands) (auto simp: final_pc_def returns_def split: sum.splits)

lemma map2_same: "map2 f xs (map g xs) = map (\<lambda>x. f x (g x)) xs"
  by (induction xs) simp_all

lemma counted_found_final: "counted_found env c (final_pc env c) = length (found_list env c)"
  by (auto simp: counted_found_def final_pc_def found_list_def split: sum.splits)

lemma appended_final: "appended env c (final_pc env c) = mset (found_list env c)"
  by (auto simp: appended_def final_pc_def found_list_def split: sum.splits)

lemma sum_list_mset_concat: "sum_list (map (\<lambda>x. mset (g x)) xs) = mset (concat (map g xs))"
  by (induction xs) simp_all

lemma sum_list_length_concat: "sum_list (map (\<lambda>x. length (g x)) xs) = length (concat (map g xs))"
  by (induction xs) simp_all

lemma final_counts:
  assumes inv: "pool_inv env cands s" and fin: "\<forall>l \<in> set (tasks s). finished l"
  shows "proc_cnt s = length (filter (returns env) cands)"
    and "found_cnt s = length (concat (map (found_list env) cands))"
    and "mset (ipv6_results s) = mset (concat (map (found_list env) cands))"
proof -
  from inv have li: "local_inv env cands s" and ci: "count_inv env cands s"
    by (simp_all add: pool_inv_def)
  note t = final_tasks [OF li fin]
  from ci t show "proc_cnt s = length (filter (returns env) cands)"
    by (simp add: count_inv_def sum_final_proc del: map_map)
  from ci t show "found_cnt s = length (concat (map (found_list env) cands))"
    by (simp add: count_inv_def map2_same counted_found_final sum_list_length_concat del: map_map)
  from ci t show "mset (ipv6_results s) = mset (concat (map (found_list env) cands))"
    by (simp add: count_inv_def map2_same appended_final sum_list_mset_concat del: map_map)
qed

lemma fan_in_final:
  "fan_in (map (final_pc env) cands) = (if \<forall>c \<in> set cands. returns env c then None else Some TypeError)"
  by (induction cands) (auto simp: final_pc_def returns_def split: sum.splits)

lemma run_pool_tasks: "tasks (run_pool env cands sched) = map (final_pc env) cands"
  using final_tasks [of env cands "run_pool env cands sched"] run_pool_inv [of env cands sched]
    run_pool_finished [of env cands sched]
  by (simp add: pool_inv_def)

lemmas run_pool_counts = final_counts [OF run_pool_inv run_pool_finished]

lemma length_filter_pos: "xs \<noteq> [] \<Longrightarrow> \<forall>x \<in> set xs. P x \<Longrightarrow> 0 < length (filter P xs)"
  by (cases xs) auto

section \<open>The whole run\<close>

lemma write_loop_ok:
  "\<forall>k. wr k = None \<Longrightarrow>
     write_loop wr k results written
       = (written @ concat (map (\<lambda>a. a @ ''\<newline>'') results), None)"
  by (induction results arbitrary: k written) simp_all

lemma write_results_ok:
  assumes "open_output w = None" "\<forall>k. write_output w k = None" "close_output w = None"
  shows "write_results w results = (Some (concat (map (\<lambda>a. a @ ''\<newline>'') results)), None)"
  using assms by (simp add: write_results_def write_loop_ok)

lemma filter_all: "\<forall>x \<in> set xs. P x \<Longrightarrow> filter P xs = xs"
  by (induction xs) simp_all

lemma read_loop_empty:
  "read_loop f [] = [] \<longleftrightarrow> (\<forall>line \<in> set f. strip line = [] \<or> startswith (strip line) ''#'')"
  by (auto simp: read_loop_acc filter_empty_conv)

text \<open>
  What claim C4 says holds of the runs that meet no failure. For a run over a non-empty
  candidate list in which no call of the resolver raises and the output file is opened,
  written and closed without an error, under every schedule: when the pool is left,
  the processed count is the number of candidates, the found count is the number of
  addresses found (\<open>found_list\<close>), the result list holds these addresses, and the output
  file holds them in the order of the result list, each followed by a newline.
\<close>

lemma complete_run_counts:
  assumes "input_read w = Inr f" and "read_loop f [] = cands" and "cands \<noteq> []"
    and "0 < max_workers"
    and "\<forall>c \<in> set cands. returns (dns w) c"
    and "open_output w = None" and "\<forall>k. write_output w k = None"
    and "close_output w = None"
    and "r = process_ipv4_list w input_file output_file max_workers sched"
    and "s = run_pool (dns w) cands sched"
  shows "pool_end r = Some s \<and>
         proc_cnt s = length cands \<and>
         found_cnt s = length (concat (map (found_list (dns w)) cands)) \<and>
         length (ipv6_results s) = found_cnt s \<and>
         mset (ipv6_results s) = mset (concat (map (found_list (dns w)) cands)) \<and>
         out_file r = Some (concat (map (\<lambda>a. a @ ''\<newline>'') (ipv6_results s))) \<and>
         ending r = Return_None"
proof -
  note cnt = run_pool_counts [of "dns w" cands sched]
  from assms(5) have p: "proc_cnt s = length cands"
    using cnt(1) assms(10) by (simp add: filter_all)
  have f: "found_cnt s = length (concat (map (found_list (dns w)) cands))"
    using cnt(2) assms(10) by simp
  have m: "mset (ipv6_results s) = mset (concat (map (found_list (dns w)) cands))"
    using cnt(3) assms(10) by simp
  from m have "size (mset (ipv6_results s)) = size (mset (concat (map (found_list (dns w)) cands)))"
    by simp
  then have l: "length (ipv6_results s) = found_cnt s"
    using f by simp
  have fi: "fan_in (tasks s) = None"
    using assms(5,10) by (simp add: run_pool_tasks fan_in_final)
  from p assms(3) have nz: "proc_cnt s \<noteq> 0" by simp
  have "pool_end r = Some s
      \<and> out_file r = Some (concat (map (\<lambda>a. a @ ''\<newline>'') (ipv6_results s)))
      \<and> ending r = Return_None"
    using assms(1,2,3,4,6,7,8,9) fi nz assms(10)
    by (simp add: process_ipv4_list_def Let_def write_results_ok)
  with p f l m show ?thesis by simp
qed

text \<open>
  Claim C4 does not hold of the code. When the resolver raises for a candidate, the
  task of that candidate ends at line 89, before line 92: under every schedule the
  processed count, when every task has finished, is the number of candidates for which
  the resolver returns, which is less than the number of candidates; and the call then
  ends at line 116 by \<open>TypeError\<close> without opening the output file.
\<close>

theorem raising_task_is_never_counted:
  assumes "input_read w = Inr f" and "read_loop f [] = cands"
    and "c \<in> set cands" and "\<not> returns (dns w) c"
    and "0 < max_workers"
    and "r = process_ipv4_list w input_file output_file max_workers sched"
    and "s = run_pool (dns w) cands sched"
  shows "pool_end r = Some s \<and>
         proc_cnt s = length (filter (returns (dns w)) cands) \<and>
         proc_cnt s < length cands \<and>
         out_file r = None \<and>
         ending r = Propagate TypeError"
proof -
  from run_pool_counts(1) [of "dns w" cands sched] assms(7)
  have p: "proc_cnt s = length (filter (returns (dns w)) cands)" by simp
  from assms(3,4) have "length (filter (returns (dns w)) cands) < length cands"
    by (rule length_filter_less)
  with p have less: "proc_cnt s < length cands" by simp
  from assms(3) have ne: "cands \<noteq> []" by auto
  from assms(3,4,7) have fi: "fan_in (tasks s) = Some TypeError"
    by (auto simp: run_pool_tasks fan_in_final)
  from assms(1,2,5,6) ne fi assms(7)
  have "pool_end r = Some s \<and> out_file r = None \<and> ending r = Propagate TypeError"
    by (simp add: process_ipv4_list_def Let_def)
  with p less show ?thesis by simp
qed

text \<open>
  With the candidates \<open>192.0.2.1\<close> and \<open>a..b\<close>: the task of \<open>a..b\<close> ends by the
  \<open>UnicodeError\<close> of the resolver, the processed count is 1 for 2 candidates, and no
  output file is written.
\<close>

theorem raising_task_is_never_counted_witness:
  "read_loop demo_bad_lines [] = [''192.0.2.1'', ''a..b''] \<and>
   map_option tasks (pool_end (process_ipv4_list (demo_world (Inr demo_bad_lines))
      ''list.ipv4'' ''list.ipv6'' 20 demo_sched)) = Some [Returned, Raised UnicodeError] \<and>
   map_option proc_cnt (pool_end (process_ipv4_list (demo_world (Inr demo_bad_lines))
      ''list.ipv4'' ''list.ipv6'' 20 demo_sched)) = Some 1 \<and>
   out_file (process_ipv4_list (demo_world (Inr demo_bad_lines))
      ''list.ipv4'' ''list.ipv6'' 20 demo_sched) = None \<and>
   ending (process_ipv4_list (demo_world (Inr demo_bad_lines))
      ''list.ipv4'' ''list.ipv6'' 20 demo_sched) = Propagate TypeError"
proof -
  have h: "input_read (demo_world (Inr demo_bad_lines)) = Inr demo_bad_lines"
    "read_loop demo_bad_lines [] = [''192.0.2.1'', ''a..b'']"
    "''a..b'' \<in> set [''192.0.2.1'', ''a..b'']"
    "\<not> returns (dns (demo_world (Inr demo_bad_lines))) ''a..b''"
    "(0::int) < 20"
    by code_simp+
  have ev: "tasks (run_pool (dns (demo_world (Inr demo_bad_lines))) [''192.0.2.1'', ''a..b'']
      demo_sched) = [Returned, Raised UnicodeError]"
    "length (filter (returns (dns (demo_world (Inr demo_bad_lines)))) [''192.0.2.1'', ''a..b''])
      = 1"
    by code_simp+
  note t = raising_task_is_never_counted [OF h refl refl, of "''list.ipv4''" "''list.ipv6''"
      demo_sched]
  from t have pe: "pool_end (process_ipv4_list (demo_world (Inr demo_bad_lines))
      ''list.ipv4'' ''list.ipv6'' 20 demo_sched)
      = Some (run_pool (dns (demo_world (Inr demo_bad_lines))) [''192.0.2.1'', ''a..b''] demo_sched)"
    by (rule conjunct1)
  from t have "proc_cnt (run_pool (dns (demo_world (Inr demo_bad_lines)))
      [''192.0.2.1'', ''a..b''] demo_sched)
      = length (filter (returns (dns (demo_world (Inr demo_bad_lines)))) [''192.0.2.1'', ''a..b''])"
    by (rule conjunct1 [OF conjunct2])
  with ev(2) have p: "proc_cnt (run_pool (dns (demo_world (Inr demo_bad_lines)))
      [''192.0.2.1'', ''a..b''] demo_sched) = 1"
    by (simp only:)
  from t have o: "out_file (process_ipv4_list (demo_world (Inr demo_bad_lines))
      ''list.ipv4'' ''list.ipv6'' 20 demo_sched) = None"
    by (rule conjunct1 [OF conjunct2 [OF conjunct2 [OF conjunct2]]])
  from t have e: "ending (process_ipv4_list (demo_world (Inr demo_bad_lines))
      ''list.ipv4'' ''list.ipv6'' 20 demo_sched) = Propagate TypeError"
    by (rule conjunct2 [OF conjunct2 [OF conjunct2 [OF conjunct2]]])
  from pe ev(1) have a: "map_option tasks (pool_end (process_ipv4_list
      (demo_world (Inr demo_bad_lines)) ''list.ipv4'' ''list.ipv6'' 20 demo_sched))
      = Some [Returned, Raised UnicodeError]"
    by (simp only: option.map)
  from pe p have b: "map_option proc_cnt (pool_end (process_ipv4_list
      (demo_world (Inr demo_bad_lines)) ''list.ipv4'' ''list.ipv6'' 20 demo_sched)) = Some 1"
    by (simp only: option.map)
  from h(2) a b o e show ?thesis by (intro conjI)
qed

text \<open>
  Claim C9. No call ends by \<open>ZeroDivisionError\<close>, and whenever the success rate of line
  133 is printed, the processed count it divides by is at least 1.
\<close>

theorem success_rate_never_divides_by_zero:
  assumes "r = process_ipv4_list w input_file output_file max_workers sched"
  shows "ending r \<noteq> Propagate ZeroDivisionError \<and>
         (\<forall>f p. Print_rate f p \<in> set (console r) \<longrightarrow> 1 \<le> p)"
proof (cases "input_read w")
  case (Inl e)
  with assms show ?thesis by (simp add: process_ipv4_list_def)
next
  case (Inr f)
  define cands where "cands = read_loop f []"
  define s where "s = run_pool (dns w) cands sched"
  show ?thesis
  proof (cases "cands = [] \<or> max_workers \<le> 0")
    case True
    with assms Inr cands_def show ?thesis
      by (auto simp: process_ipv4_list_def Let_def)
  next
    case False
    have pr: "\<forall>ev \<in> set (printed s). \<forall>f p. ev \<noteq> Print_rate f p"
    proof
      fix ev assume "ev \<in> set (printed s)"
      with run_pool_inv [of "dns w" cands sched] have "print_ok cands ev"
        by (simp add: pool_inv_def print_inv_def s_def)
      then show "\<forall>f p. ev \<noteq> Print_rate f p" by (cases ev) simp_all
    qed
    show ?thesis
    proof (cases "fan_in (tasks s)")
      case (Some e)
      then have "e = TypeError"
        by (simp add: s_def run_pool_tasks fan_in_final split: if_splits)
      with assms Inr False Some pr show ?thesis
        by (auto simp: process_ipv4_list_def Let_def cands_def [symmetric] s_def [symmetric])
    next
      case None
      then have "\<forall>c \<in> set cands. returns (dns w) c"
        by (simp add: s_def run_pool_tasks fan_in_final split: if_splits)
      with run_pool_counts(1) [of "dns w" cands sched] have "proc_cnt s = length cands"
        by (simp add: s_def filter_all)
      with False have "1 \<le> proc_cnt s" by (cases cands) simp_all
      with assms Inr False None pr show ?thesis
        by (auto simp: process_ipv4_list_def Let_def cands_def [symmetric] s_def [symmetric]
            split: prod.splits option.splits)
    qed
  qed
qed

text \<open>The sample run prints the rate of 1 found for 3 processed.\<close>

theorem success_rate_never_divides_by_zero_witness:
  "console (process_ipv4_list (demo_world (Inr demo_lines)) ''list.ipv4'' ''list.ipv6'' 20
      demo_sched)
     = [Print_processing 3, Print_completed, Print_total 3, Print_found 1, Print_rate 1 3,
        Print_saved ''list.ipv6''] \<and>
   (1::nat) \<le> 3 \<and>
   ending (process_ipv4_list (demo_world (Inr demo_lines)) ''list.ipv4'' ''list.ipv6'' 20
      demo_sched) \<noteq> Propagate ZeroDivisionError"
proof -
  have ev: "console (process_ipv4_list (demo_world (Inr demo_lines)) ''list.ipv4'' ''list.ipv6'' 20
      demo_sched)
     = [Print_processing 3, Print_completed, Print_total 3, Print_found 1, Print_rate 1 3,
        Print_saved ''list.ipv6'']"
    by code_simp
  note t = success_rate_never_divides_by_zero [OF refl, of "demo_world (Inr demo_lines)"
      "''list.ipv4''" "''list.ipv6''" 20 demo_sched]
  from t have "\<forall>f p. Print_rate f p \<in> set (console (process_ipv4_list (demo_world (Inr demo_lines))
      ''list.ipv4'' ''list.ipv6'' 20 demo_sched)) \<longrightarrow> 1 \<le> p" by blast
  from this [rule_format, of 1 3] ev have "(1::nat) \<le> 3" by simp
  with t ev show ?thesis by simp
qed

text \<open>
  Claim C8. When the input file is missing, or every one of its lines is blank or a
  comment after stripping (an empty file included), the call returns before line 81:
  no pool exists, so no candidate is resolved, and the output file is never opened.
\<close>

theorem abort_leaves_output_untouched:
  assumes "input_read w = Inl FileNotFoundError \<or>
           (\<exists>f. input_read w = Inr f \<and>
                (\<forall>line \<in> set f. strip line = [] \<or> startswith (strip line) ''#''))"
    and "r = process_ipv4_list w input_file output_file max_workers sched"
  shows "pool_end r = None \<and> out_file r = None \<and> ending r = Return_None"
  using assms by (auto simp: process_ipv4_list_def read_loop_empty [symmetric])

text \<open>A missing file, a file of one comment and one blank line, and an empty file.\<close>

theorem abort_leaves_output_untouched_witness:
  "out_file (process_ipv4_list (demo_world (Inl FileNotFoundError)) ''list.ipv4'' ''list.ipv6'' 20
      demo_sched) = None \<and>
   pool_end (process_ipv4_list (demo_world (Inl FileNotFoundError)) ''list.ipv4'' ''list.ipv6'' 20
      demo_sched) = None \<and>
   out_file (process_ipv4_list (demo_world (Inr [''# only a comment\<newline>'', ''   \<newline>'']))
      ''list.ipv4'' ''list.ipv6'' 20 demo_sched) = None \<and>
   pool_end (process_ipv4_list (demo_world (Inr [''# only a comment\<newline>'', ''   \<newline>'']))
      ''list.ipv4'' ''list.ipv6'' 20 demo_sched) = None \<and>
   ending (process_ipv4_list (demo_world (Inr [])) ''list.ipv4'' ''list.ipv6'' 20 demo_sched)
     = Return_None \<and>
   console (process_ipv4_list (demo_world (Inr [])) ''list.ipv4'' ''list.ipv6'' 20 demo_sched)
     = [Print ''No IPv4 addresses found in input file'']"
proof -
  have a: "input_read (demo_world (Inl FileNotFoundError)) = Inl FileNotFoundError \<or>
           (\<exists>f. input_read (demo_world (Inl FileNotFoundError)) = Inr f \<and>
                (\<forall>line \<in> set f. strip line = [] \<or> startswith (strip line) ''#''))"
    by (simp add: demo_world_def)
  have b: "input_read (demo_world (Inr [''# only a comment\<newline>'', ''   \<newline>''])) = Inl FileNotFoundError \<or>
           (\<exists>f. input_read (demo_world (Inr [''# only a comment\<newline>'', ''   \<newline>''])) = Inr f \<and>
                (\<forall>line \<in> set f. strip line = [] \<or> startswith (strip line) ''#''))"
    by (simp add: demo_world_def strip_def isspace_def startswith_def)
  have c: "input_read (demo_world (Inr [])) = Inl FileNotFoundError \<or>
           (\<exists>f. input_read (demo_world (Inr [])) = Inr f \<and>
                (\<forall>line \<in> set f. strip line = [] \<or> startswith (strip line) ''#''))"
    by (simp add: demo_world_def)
  have ev: "console (process_ipv4_list (demo_world (Inr [])) ''list.ipv4'' ''list.ipv6'' 20 demo_sched)
     = [Print ''No IPv4 addresses found in input file'']"
    by code_simp
  from abort_leaves_output_untouched [OF a refl, of "''list.ipv4''" "''list.ipv6''" 20 demo_sched]
    abort_leaves_output_untouched [OF b refl, of "''list.ipv4''" "''list.ipv6''" 20 demo_sched]
    abort_leaves_output_untouched [OF c refl, of "''list.ipv4''" "''list.ipv6''" 20 demo_sched]
    ev
  show ?thesis by simp
qed

text \<open>
  Claim C7 does not hold of the code. When reading the input fails with anything but
  \<open>FileNotFoundError\<close>, the handler of line 70 raises \<open>TypeError\<close> while it builds its
  message: nothing is printed and the exception leaves the function. The handler of
  line 125 does the same when opening the output file or a write to it fails.
\<close>

theorem io_failure_handler_raises:
  assumes "r = process_ipv4_list w input_file output_file max_workers sched"
  shows "(input_read w = Inl e \<longrightarrow> e \<noteq> FileNotFoundError \<longrightarrow>
            ending r = Propagate TypeError \<and> console r = []) \<and>
         (input_read w = Inr f \<longrightarrow> read_loop f [] \<noteq> [] \<longrightarrow> 0 < max_workers \<longrightarrow>
          (\<forall>c \<in> set (read_loop f []). returns (dns w) c) \<longrightarrow>
          write_results w (ipv6_results (run_pool (dns w) (read_loop f []) sched))
            = (out, Some e) \<longrightarrow>
            ending r = Propagate TypeError \<and> out_file r = out \<and>
            console r = Print_processing (length (read_loop f []))
                          # printed (run_pool (dns w) (read_loop f []) sched))"
  using assms
  by (auto simp: process_ipv4_list_def Let_def run_pool_tasks fan_in_final)

text \<open>
  An input file that cannot be read for lack of permission, seen from
  \<open>process_ipv4_list\<close> and from \<open>main\<close>; an output file that cannot be opened; a first
  write that fails, which leaves the output file truncated and empty; and a close that
  fails, which leaves it with the beginning of a line.
\<close>

theorem io_failure_handler_raises_witness:
  "ending (process_ipv4_list (demo_world (Inl PermissionError)) ''list.ipv4'' ''list.ipv6'' 20
      demo_sched) = Propagate TypeError \<and>
   console (process_ipv4_list (demo_world (Inl PermissionError)) ''list.ipv4'' ''list.ipv6'' 20
      demo_sched) = [] \<and>
   ending (main (demo_world (Inl PermissionError)) demo_sched) = Propagate TypeError \<and>
   ending (process_ipv4_list demo_no_open ''list.ipv4'' ''list.ipv6'' 20 demo_sched)
     = Propagate TypeError \<and>
   console (process_ipv4_list demo_no_open ''list.ipv4'' ''list.ipv6'' 20 demo_sched)
     = [Print_processing 3] \<and>
   out_file (process_ipv4_list demo_no_open ''list.ipv4'' ''list.ipv6'' 20 demo_sched) = None \<and>
   ending (process_ipv4_list demo_disk_full ''list.ipv4'' ''list.ipv6'' 20 demo_sched)
     = Propagate TypeError \<and>
   console (process_ipv4_list demo_disk_full ''list.ipv4'' ''list.ipv6'' 20 demo_sched)
     = [Print_processing 3] \<and>
   out_file (process_ipv4_list demo_disk_full ''list.ipv4'' ''list.ipv6'' 20 demo_sched) = Some [] \<and>
   ending (process_ipv4_list demo_close_fails ''list.ipv4'' ''list.ipv6'' 20 demo_sched)
     = Propagate TypeError \<and>
   out_file (process_ipv4_list demo_close_fails ''list.ipv4'' ''list.ipv6'' 20 demo_sched)
     = Some ''2001:''"
proof -
  note t1 = io_failure_handler_raises [OF refl, where w = "demo_world (Inl PermissionError)"
      and e = PermissionError and input_file = "''list.ipv4''" and output_file = "''list.ipv6''"
      and max_workers = 20 and sched = demo_sched]
  note t2 = io_failure_handler_raises [OF refl, where w = demo_no_open and e = PermissionError
      and f = demo_lines and out = None
      and input_file = "''list.ipv4''" and output_file = "''list.ipv6''"
      and max_workers = 20 and sched = demo_sched]
  note t3 = io_failure_handler_raises [OF refl, where w = demo_disk_full and e = OSError
      and f = demo_lines and out = "Some []"
      and input_file = "''list.ipv4''" and output_file = "''list.ipv6''"
      and max_workers = 20 and sched = demo_sched]
  note t4 = io_failure_handler_raises [OF refl, where w = demo_close_fails and e = OSError
      and f = demo_lines and out = "Some ''2001:''"
      and input_file = "''list.ipv4''" and output_file = "''list.ipv6''"
      and max_workers = 20 and sched = demo_sched]
  have h1: "input_read (demo_world (Inl PermissionError)) = Inl PermissionError"
    by (simp add: demo_world_def)
  have h4: "input_read demo_close_fails = Inr demo_lines"
    "\<forall>c \<in> set (read_loop demo_lines []). returns (dns demo_close_fails) c"
    "write_results demo_close_fails
       (ipv6_results (run_pool (dns demo_close_fails) (read_loop demo_lines []) demo_sched))
       = (Some ''2001:'', Some OSError)"
    by code_simp+
  have h2: "input_read demo_no_open = Inr demo_lines" "read_loop demo_lines [] \<noteq> []"
    "(0::int) < 20"
    "\<forall>c \<in> set (read_loop demo_lines []). returns (dns demo_no_open) c"
    "write_results demo_no_open
       (ipv6_results (run_pool (dns demo_no_open) (read_loop demo_lines []) demo_sched))
       = (None, Some PermissionError)"
    "printed (run_pool (dns demo_no_open) (read_loop demo_lines []) demo_sched) = []"
    "length (read_loop demo_lines []) = 3"
    by code_simp+
  have h3: "input_read demo_disk_full = Inr demo_lines"
    "\<forall>c \<in> set (read_loop demo_lines []). returns (dns demo_disk_full) c"
    "write_results demo_disk_full
       (ipv6_results (run_pool (dns demo_disk_full) (read_loop demo_lines []) demo_sched))
       = (Some [], Some OSError)"
    "printed (run_pool (dns demo_disk_full) (read_loop demo_lines []) demo_sched) = []"
    by code_simp+
  have m: "ending (main (demo_world (Inl PermissionError)) demo_sched)
      = ending (process_ipv4_list (demo_world (Inl PermissionError)) ''list.ipv4'' ''list.ipv6'' 20
      demo_sched)"
    by (simp add: main_def Let_def)
  from t1 h1 have "ending (process_ipv4_list (demo_world (Inl PermissionError)) ''list.ipv4''
      ''list.ipv6'' 20 demo_sched) = Propagate TypeError \<and>
   console (process_ipv4_list (demo_world (Inl PermissionError)) ''list.ipv4'' ''list.ipv6'' 20
      demo_sched) = []" by simp
  moreover from t2 h2 have
    "ending (process_ipv4_list demo_no_open ''list.ipv4'' ''list.ipv6'' 20 demo_sched)
      = Propagate TypeError \<and>
     console (process_ipv4_list demo_no_open ''list.ipv4'' ''list.ipv6'' 20 demo_sched)
      = [Print_processing 3] \<and>
     out_file (process_ipv4_list demo_no_open ''list.ipv4'' ''list.ipv6'' 20 demo_sched) = None"
    by simp
  moreover from t3 h3 h2(2,3,7) have
    "ending (process_ipv4_list demo_disk_full ''list.ipv4'' ''list.ipv6'' 20 demo_sched)
      = Propagate TypeError \<and>
     console (process_ipv4_list demo_disk_full ''list.ipv4'' ''list.ipv6'' 20 demo_sched)
      = [Print_processing 3] \<and>
     out_file (process_ipv4_list demo_disk_full ''list.ipv4'' ''list.ipv6'' 20 demo_sched) = Some []"
    by simp
  moreover from t4 h4 h2(2,3) have
    "ending (process_ipv4_list demo_close_fails ''list.ipv4'' ''list.ipv6'' 20 demo_sched)
      = Propagate TypeError \<and>
     out_file (process_ipv4_list demo_close_fails ''list.ipv4'' ''list.ipv6'' 20 demo_sched)
      = Some ''2001:''"
    by simp
  ultimately show ?thesis using m by simp
qed

text \<open>
  Claim C6 does not hold of the code. When the resolver raises for one candidate, the
  handler of line 115 raises \<open>TypeError\<close> at line 116: the call ends by that exception
  once the tasks have finished, nothing is logged and the output file is never opened.
\<close>

theorem task_failure_aborts_the_batch:
  assumes "input_read w = Inr f" and "c \<in> set (read_loop f [])"
    and "\<not> returns (dns w) c" and "0 < max_workers"
    and "r = process_ipv4_list w input_file output_file max_workers sched"
  shows "ending r = Propagate TypeError \<and> out_file r = None \<and>
         console r = Print_processing (length (read_loop f []))
                       # printed (run_pool (dns w) (read_loop f []) sched)"
  using assms
  by (auto simp: process_ipv4_list_def Let_def run_pool_tasks fan_in_final)

text \<open>
  With the candidates \<open>192.0.2.1\<close> and \<open>a..b\<close>: the address found for the first is in the
  result list of the pool, and is never written.
\<close>

theorem task_failure_aborts_the_batch_witness:
  "ending (process_ipv4_list (demo_world (Inr demo_bad_lines)) ''list.ipv4'' ''list.ipv6'' 20
      demo_sched) = Propagate TypeError \<and>
   out_file (process_ipv4_list (demo_world (Inr demo_bad_lines)) ''list.ipv4'' ''list.ipv6'' 20
      demo_sched) = None \<and>
   console (process_ipv4_list (demo_world (Inr demo_bad_lines)) ''list.ipv4'' ''list.ipv6'' 20
      demo_sched) = [Print_processing 2] \<and>
   map_option ipv6_results (pool_end (process_ipv4_list (demo_world (Inr demo_bad_lines))
      ''list.ipv4'' ''list.ipv6'' 20 demo_sched)) = Some [''2001:db8::1'']"
proof -
  have h: "input_read (demo_world (Inr demo_bad_lines)) = Inr demo_bad_lines"
    "''a..b'' \<in> set (read_loop demo_bad_lines [])"
    "\<not> returns (dns (demo_world (Inr demo_bad_lines))) ''a..b''"
    "(0::int) < 20"
    by code_simp+
  have ev: "printed (run_pool (dns (demo_world (Inr demo_bad_lines))) (read_loop demo_bad_lines [])
      demo_sched) = []"
    "length (read_loop demo_bad_lines []) = 2"
    "map_option ipv6_results (pool_end (process_ipv4_list (demo_world (Inr demo_bad_lines))
      ''list.ipv4'' ''list.ipv6'' 20 demo_sched)) = Some [''2001:db8::1'']"
    by code_simp+
  from task_failure_aborts_the_batch [OF h refl, of "''list.ipv4''" "''list.ipv6''" demo_sched] ev
  show ?thesis by simp
qed

end
